theory Spec2Isabelle
  imports Main
begin

section \<open>Data model of analyzer/bear.py\<close>

text \<open>
  The module works on Python dictionaries throughout: a parsed trace record, a
  compilation database entry and a row loaded from an existing database are all
  dicts indexed by string keys. The values the module itself produces are strings
  and lists of strings, so a value is one of these two; a dictionary is a partial
  map. Every exception the module can raise is a value of \<open>error\<close>.
\<close>

datatype error =
    IOError
  | OSError
  | IndexError
  | KeyError string
  | TypeError
  | AttributeError
  | ValueError

datatype pyval = Str string | StrList "string list"

type_synonym pydict = "string \<Rightarrow> pyval option"

definition getitem :: "pydict \<Rightarrow> string \<Rightarrow> error + pyval" where
  "getitem d k = (case d k of None \<Rightarrow> Inl (KeyError k) | Some v \<Rightarrow> Inr v)"

text \<open>
  A Python string is itself a sequence of one-character strings; indexing, slicing
  and iteration over a value go through this view.
\<close>

fun as_seq :: "pyval \<Rightarrow> string list" where
  "as_seq (Str s) = map (\<lambda>c. [c]) s"
| "as_seq (StrList xs) = xs"

subsection \<open>String helpers of the Python library\<close>

text \<open>
  \<open>s.split(sep)\<close> for a one-character separator. The result is never empty, so the
  second branch of the \<open>case\<close> is never taken.
\<close>

fun split :: "char \<Rightarrow> string \<Rightarrow> string list" where
  "split sep [] = [[]]"
| "split sep (c # cs) =
     (if c = sep then [] # split sep cs
      else (case split sep cs of
              w # ws \<Rightarrow> (c # w) # ws
            | [] \<Rightarrow> [[c]]))"

text \<open>\<open>sep.join(xs)\<close>.\<close>

fun join :: "string \<Rightarrow> string list \<Rightarrow> string" where
  "join sep [] = []"
| "join sep [x] = x"
| "join sep (x # y # ys) = x @ sep @ join sep (y # ys)"

definition RS :: char where
  "RS = CHR 0x1E"

definition US :: char where
  "US = CHR 0x1F"

section \<open>collect: the record reader\<close>

text \<open>
  \<open>parse(filename)\<close> of \<open>collect\<close>. The file system is a map from file names to
  the text \<open>handler.read()\<close> returns; \<open>None\<close> is a file that \<open>open\<close> refuses.
  Each of \<open>records[0]\<close> .. \<open>records[4]\<close> raises IndexError when the index is out of
  range; \<open>[:-1]\<close> drops the last element of the split.
\<close>

definition parse :: "(string \<Rightarrow> string option) \<Rightarrow> string \<Rightarrow> error + pydict" where
  "parse fs filename =
     (case fs filename of
        None \<Rightarrow> Inl IOError
      | Some content \<Rightarrow>
          (let records = split RS content in
           if length records < 5 then Inl IndexError
           else Inr [''pid'' \<mapsto> Str (records ! 0),
                     ''ppid'' \<mapsto> Str (records ! 1),
                     ''function'' \<mapsto> Str (records ! 2),
                     ''directory'' \<mapsto> Str (records ! 3),
                     ''command'' \<mapsto> StrList (butlast (split US (records ! 4)))]))"

section \<open>Regular expressions of the \<open>re\<close> module\<close>

text \<open>
  The patterns the module compiles use literals, character classes, \<open>.\<close>,
  grouping, alternation, \<open>*\<close> and \<open>?\<close>. \<open>pattern.match(s)\<close> is only tested for
  truth, which is whether some prefix of \<open>s\<close> is in the language of the pattern, so
  the matcher decides language membership (by derivatives). \<open>Dot\<close> is any character
  but the newline; a negated class \<open>[^c]\<close> does match the newline.
\<close>

datatype rexp =
    Zero
  | Eps
  | Lit char
  | NotCh char
  | OneOf string
  | Dot
  | Seq rexp rexp
  | Alt rexp rexp
  | Star rexp
  | Opt rexp

fun lits :: "string \<Rightarrow> rexp" where
  "lits [] = Eps"
| "lits (c # cs) = Seq (Lit c) (lits cs)"

fun nullable :: "rexp \<Rightarrow> bool" where
  "nullable Zero = False"
| "nullable Eps = True"
| "nullable (Lit c) = False"
| "nullable (NotCh c) = False"
| "nullable (OneOf cs) = False"
| "nullable Dot = False"
| "nullable (Seq r s) = (nullable r \<and> nullable s)"
| "nullable (Alt r s) = (nullable r \<or> nullable s)"
| "nullable (Star r) = True"
| "nullable (Opt r) = True"

fun deriv :: "char \<Rightarrow> rexp \<Rightarrow> rexp" where
  "deriv c Zero = Zero"
| "deriv c Eps = Zero"
| "deriv c (Lit d) = (if c = d then Eps else Zero)"
| "deriv c (NotCh d) = (if c = d then Zero else Eps)"
| "deriv c (OneOf cs) = (if c \<in> set cs then Eps else Zero)"
| "deriv c Dot = (if c = CHR 0x0A then Zero else Eps)"
| "deriv c (Seq r s) =
     (if nullable r then Alt (Seq (deriv c r) s) (deriv c s) else Seq (deriv c r) s)"
| "deriv c (Alt r s) = Alt (deriv c r) (deriv c s)"
| "deriv c (Star r) = Seq (deriv c r) (Star r)"
| "deriv c (Opt r) = deriv c r"

fun matches :: "rexp \<Rightarrow> string \<Rightarrow> bool" where
  "matches r [] = nullable r"
| "matches r (c # cs) = matches (deriv c r) cs"

text \<open>
  Every pattern of the module has the shape \<open>^body$\<close> and is used through
  \<open>match\<close>. Without the MULTILINE flag \<open>$\<close> holds at the end of the string and also
  just before a newline that is the last character of the string.
\<close>

definition re_match :: "rexp \<Rightarrow> string \<Rightarrow> bool" where
  "re_match body s =
     (matches body s \<or> (s \<noteq> [] \<and> last s = CHR 0x0A \<and> matches body (butlast s)))"

text \<open>The language of a pattern, the reference the matcher is proved against.\<close>

definition conc :: "string set \<Rightarrow> string set \<Rightarrow> string set" where
  "conc A B = {a @ b | a b. a \<in> A \<and> b \<in> B}"

inductive_set star :: "string set \<Rightarrow> string set" for A :: "string set" where
  star_nil: "[] \<in> star A"
| star_step: "a \<in> A \<Longrightarrow> w \<in> star A \<Longrightarrow> a @ w \<in> star A"

fun lang :: "rexp \<Rightarrow> string set" where
  "lang Zero = {}"
| "lang Eps = {[]}"
| "lang (Lit c) = {[c]}"
| "lang (NotCh c) = {[d] | d. d \<noteq> c}"
| "lang (OneOf cs) = {[d] | d. d \<in> set cs}"
| "lang Dot = {[d] | d. d \<noteq> CHR 0x0A}"
| "lang (Seq r s) = conc (lang r) (lang s)"
| "lang (Alt r s) = lang r \<union> lang s"
| "lang (Star r) = star (lang r)"
| "lang (Opt r) = insert [] (lang r)"

section \<open>collect: the compiler recognizer\<close>

text \<open>\<open>([^/]*/)*\<close> and \<open>([^-]*-)*\<close>, the two prefixes the patterns share.\<close>

definition dir_prefix :: rexp where
  "dir_prefix = Star (Seq (Star (NotCh CHR ''/'')) (Lit CHR ''/''))"

definition dash_prefix :: rexp where
  "dash_prefix = Star (Seq (Star (NotCh CHR ''-'')) (Lit CHR ''-''))"

text \<open>
  The four patterns of \<open>known_compiler\<close>, in the order of the source:
  \<^verbatim>\<open>^([^/]*/)*c(c|\+\+)$\<close>,
  \<^verbatim>\<open>^([^/]*/)*([^-]*-)*g(cc|\+\+)(-[2345].[0-9])?$\<close>,
  \<^verbatim>\<open>^([^/]*/)*([^-]*-)*clang(\+\+)?(-[23].[0-9])?$\<close> and
  \<^verbatim>\<open>^([^/]*/)*llvm-g(cc|\+\+)$\<close>. The dot of the version suffix is not escaped
  in the source, so it is \<open>Dot\<close> here.
\<close>

definition compiler_patterns :: "rexp list" where
  "compiler_patterns =
     [Seq dir_prefix (Seq (Lit CHR ''c'') (Alt (Lit CHR ''c'') (lits ''++''))),
      Seq dir_prefix (Seq dash_prefix (Seq (Lit CHR ''g'') (Seq (Alt (lits ''cc'') (lits ''++''))
        (Opt (Seq (Lit CHR ''-'') (Seq (OneOf ''2345'') (Seq Dot (OneOf ''0123456789'')))))))),
      Seq dir_prefix (Seq dash_prefix (Seq (lits ''clang'') (Seq (Opt (lits ''++''))
        (Opt (Seq (Lit CHR ''-'') (Seq (OneOf ''23'') (Seq Dot (OneOf ''0123456789'')))))))),
      Seq dir_prefix (Seq (lits ''llvm-g'') (Alt (lits ''cc'') (lits ''++'')))]"

text \<open>\<open>command[0]\<close> raises IndexError on an empty command.\<close>

definition known_compiler :: "string list \<Rightarrow> error + bool" where
  "known_compiler command =
     (case command of
        [] \<Rightarrow> Inl IndexError
      | executable # _ \<Rightarrow> Inr (list_ex (\<lambda>pattern. re_match pattern executable) compiler_patterns))"

definition cancel_patterns :: "rexp list" where
  "cancel_patterns = [lits ''-cc1'']"

text \<open>\<open>command[1:]\<close> of an empty command is empty.\<close>

definition cancel_parameter :: "string list \<Rightarrow> bool" where
  "cancel_parameter command =
     list_ex (\<lambda>pattern. list_ex (\<lambda>arg. re_match pattern arg) (tl command)) cancel_patterns"

text \<open>
  \<open>general_filter\<close>: \<open>known_compiler(command) and not cancel_parameter(command)\<close>
  for every record, in order; an exception of one record ends the whole generator.
\<close>

fun general_filter :: "pydict list \<Rightarrow> error + pydict list" where
  "general_filter [] = Inr []"
| "general_filter (record # rest) =
     (case getitem record ''command'' of
        Inl e \<Rightarrow> Inl e
      | Inr v \<Rightarrow>
          (case known_compiler (as_seq v) of
             Inl e \<Rightarrow> Inl e
           | Inr known \<Rightarrow>
               (case general_filter rest of
                  Inl e \<Rightarrow> Inl e
                | Inr out \<Rightarrow>
                    Inr (if known \<and> \<not> cancel_parameter (as_seq v) then record # out else out))))"

section \<open>collect: the entry expander\<close>

text \<open>
  Modelled from the spec: \<open>analyzer.command\<close> (\<open>Action\<close> and \<open>parse\<close>, imported as
  \<open>cmdparse\<close>) is not part of the sources. The spec gives it the contract
  \<open>classify(argv) -> {action, files}\<close> with actions Compile, Link and Other; it is a
  parameter \<open>cmdparse\<close> of everything that calls it.
\<close>

datatype action = Compile | Link | Other

record atoms =
  action :: action
  files :: "string list"

definition join_command :: "string list \<Rightarrow> string" where
  "join_command args = join '' '' args"

text \<open>
  \<open>os.path.abspath\<close> of posixpath: \<open>normpath(join(os.getcwd(), path))\<close> for a
  relative path. The working directory of the running tool is the parameter \<open>cwd\<close>.
\<close>

definition isabs :: "string \<Rightarrow> bool" where
  "isabs path = (take 1 path = ''/'')"

definition path_join :: "string \<Rightarrow> string \<Rightarrow> string" where
  "path_join a b =
     (if isabs b then b
      else if a = [] \<or> last a = CHR ''/'' then a @ b
      else a @ ''/'' @ b)"

fun normpath_comps :: "nat \<Rightarrow> string list \<Rightarrow> string list \<Rightarrow> string list" where
  "normpath_comps initial_slashes new_comps [] = new_comps"
| "normpath_comps initial_slashes new_comps (component # comps) =
     (if component = [] \<or> component = ''.'' then normpath_comps initial_slashes new_comps comps
      else if component \<noteq> ''..'' \<or> (initial_slashes = 0 \<and> new_comps = [])
                \<or> (new_comps \<noteq> [] \<and> last new_comps = ''..'')
        then normpath_comps initial_slashes (new_comps @ [component]) comps
      else if new_comps \<noteq> [] then normpath_comps initial_slashes (butlast new_comps) comps
      else normpath_comps initial_slashes new_comps comps)"

definition normpath :: "string \<Rightarrow> string" where
  "normpath path =
     (if path = [] then ''.''
      else
        (let initial_slashes =
               (if take 1 path = ''/''
                then (if take 2 path = ''//'' \<and> take 3 path \<noteq> ''///'' then 2 else 1)
                else (0::nat));
             comps = normpath_comps initial_slashes [] (split CHR ''/'' path);
             result = replicate initial_slashes CHR ''/'' @ join ''/'' comps
         in if result = [] then ''.'' else result))"

definition abspath :: "string \<Rightarrow> string \<Rightarrow> string" where
  "abspath cwd path = normpath (if isabs path then path else path_join cwd path)"

text \<open>
  The inner loop of \<open>format_record\<close>: one entry per file name of the classifier's
  answer, with the keys in the order of the source's dict display.
\<close>

fun entries_of :: "string \<Rightarrow> pydict \<Rightarrow> string list \<Rightarrow> error + pydict list" where
  "entries_of cwd record [] = Inr []"
| "entries_of cwd record (filename # rest) =
     (case getitem record ''directory'' of
        Inl e \<Rightarrow> Inl e
      | Inr directory \<Rightarrow>
          (case getitem record ''command'' of
             Inl e \<Rightarrow> Inl e
           | Inr command \<Rightarrow>
               (case entries_of cwd record rest of
                  Inl e \<Rightarrow> Inl e
                | Inr out \<Rightarrow>
                    Inr ([''directory'' \<mapsto> directory,
                          ''command'' \<mapsto> Str (join_command (as_seq command)),
                          ''file'' \<mapsto> Str (abspath cwd filename)] # out))))"

fun format_record ::
  "string \<Rightarrow> (string list \<Rightarrow> atoms) \<Rightarrow> pydict list \<Rightarrow> error + pydict list" where
  "format_record cwd cmdparse [] = Inr []"
| "format_record cwd cmdparse (record # rest) =
     (case getitem record ''command'' of
        Inl e \<Rightarrow> Inl e
      | Inr command \<Rightarrow>
          (case (if action (cmdparse (as_seq command)) = Compile
                 then entries_of cwd record (files (cmdparse (as_seq command)))
                 else Inr []) of
             Inl e \<Rightarrow> Inl e
           | Inr entries \<Rightarrow>
               (case format_record cwd cmdparse rest of
                  Inl e \<Rightarrow> Inl e
                | Inr out \<Rightarrow> Inr (entries @ out))))"

text \<open>A list comprehension over a function that can raise.\<close>

fun map_err :: "('a \<Rightarrow> error + 'b) \<Rightarrow> 'a list \<Rightarrow> error + 'b list" where
  "map_err f [] = Inr []"
| "map_err f (x # xs) =
     (case f x of
        Inl e \<Rightarrow> Inl e
      | Inr y \<Rightarrow> (case map_err f xs of Inl e \<Rightarrow> Inl e | Inr ys \<Rightarrow> Inr (y # ys)))"

text \<open>
  \<open>collect(filtering, destination)\<close>. \<open>names\<close> is what
  \<open>glob.iglob(os.path.join(destination, 'cmd.*'))\<close> lists, in its order.
\<close>

definition collect ::
  "string \<Rightarrow> (string list \<Rightarrow> atoms) \<Rightarrow> (string \<Rightarrow> string option) \<Rightarrow> bool \<Rightarrow> string list
     \<Rightarrow> error + pydict list" where
  "collect cwd cmdparse fs filtering names =
     (case map_err (parse fs) names of
        Inl e \<Rightarrow> Inl e
      | Inr generator \<Rightarrow>
          if filtering
          then (case general_filter generator of
                  Inl e \<Rightarrow> Inl e
                | Inr records \<Rightarrow> format_record cwd cmdparse records)
          else Inr generator)"

section \<open>merge\<close>

text \<open>
  \<open>shlex.split(s)\<close>: the POSIX-mode lexer with \<open>whitespace_split\<close> set and no
  comment characters. The state of \<open>read_token\<close> is \<open>' '\<close> (\<open>Ws\<close>), \<open>'a'\<close>
  (\<open>Word\<close>), an open quote, or the escape character together with the state to
  return to (\<open>None\<close> for \<open>'a'\<close>, the quote otherwise). The end of the input inside
  a quote or after an escape raises ValueError.
\<close>

datatype lexstate = Ws | Word | Quote char | Esc char "char option"

definition whitespace :: string where
  "whitespace = [CHR '' '', CHR 0x09, CHR 0x0D, CHR 0x0A]"

definition quotes :: string where
  "quotes = [CHR 0x27, CHR 0x22]"

definition escape :: string where
  "escape = [CHR 0x5C]"

definition escapedquotes :: string where
  "escapedquotes = [CHR 0x22]"

text \<open>
  The end of \<open>read_token\<close>: an unquoted empty result is \<open>None\<close>, which ends the
  iteration; any other result is the next token.
\<close>

definition emit :: "string \<Rightarrow> bool \<Rightarrow> error + string list \<Rightarrow> error + string list" where
  "emit token quoted rest =
     (if \<not> quoted \<and> token = [] then Inr []
      else (case rest of Inl e \<Rightarrow> Inl e | Inr tokens \<Rightarrow> Inr (token # tokens)))"

fun shlex_loop :: "lexstate \<Rightarrow> string \<Rightarrow> bool \<Rightarrow> string \<Rightarrow> error + string list" where
  "shlex_loop Ws token quoted [] = emit token quoted (Inr [])"
| "shlex_loop Ws token quoted (c # cs) =
     (if c \<in> set whitespace then
        (if token \<noteq> [] \<or> quoted then emit token quoted (shlex_loop Ws [] False cs)
         else shlex_loop Ws token quoted cs)
      else if c \<in> set escape then shlex_loop (Esc c None) token quoted cs
      else if c \<in> set quotes then shlex_loop (Quote c) token quoted cs
      else shlex_loop Word [c] quoted cs)"
| "shlex_loop (Quote q) token quoted [] = Inl ValueError"
| "shlex_loop (Quote q) token quoted (c # cs) =
     (if c = q then shlex_loop Word token True cs
      else if c \<in> set escape \<and> q \<in> set escapedquotes
        then shlex_loop (Esc c (Some q)) token True cs
      else shlex_loop (Quote q) (token @ [c]) True cs)"
| "shlex_loop (Esc e None) token quoted [] = Inl ValueError"
| "shlex_loop (Esc e None) token quoted (c # cs) = shlex_loop Word (token @ [c]) quoted cs"
| "shlex_loop (Esc e (Some q)) token quoted [] = Inl ValueError"
| "shlex_loop (Esc e (Some q)) token quoted (c # cs) =
     shlex_loop (Quote q) ((if c \<noteq> e \<and> c \<noteq> q then token @ [e] else token) @ [c]) quoted cs"
| "shlex_loop Word token quoted [] = emit token quoted (Inr [])"
| "shlex_loop Word token quoted (c # cs) =
     (if c \<in> set whitespace then
        (if token \<noteq> [] \<or> quoted then emit token quoted (shlex_loop Ws [] False cs)
         else shlex_loop Ws token quoted cs)
      else if c \<in> set quotes then shlex_loop (Quote c) token quoted cs
      else if c \<in> set escape then shlex_loop (Esc c None) token quoted cs
      else shlex_loop Word (token @ [c]) quoted cs)"

definition shlex_split :: "string \<Rightarrow> error + string list" where
  "shlex_split s = shlex_loop Ws [] False s"

text \<open>
  \<open>hash_cdb(entry)\<close>. \<open>shlex.split\<close> of a list has no \<open>read\<close> (AttributeError);
  \<open>'<>'.join\<close> of a list that holds a list raises TypeError.
\<close>

definition hash_cdb :: "pydict \<Rightarrow> error + string" where
  "hash_cdb entry =
     (case getitem entry ''command'' of
        Inl e \<Rightarrow> Inl e
      | Inr (StrList _) \<Rightarrow> Inl AttributeError
      | Inr (Str c) \<Rightarrow>
          (case shlex_split c of
             Inl e \<Rightarrow> Inl e
           | Inr tokens \<Rightarrow>
               (case getitem entry ''file'' of
                  Inl e \<Rightarrow> Inl e
                | Inr fv \<Rightarrow>
                    (case getitem entry ''directory'' of
                       Inl e \<Rightarrow> Inl e
                     | Inr dv \<Rightarrow>
                         (case (fv, dv) of
                            (Str filename, Str directory) \<Rightarrow>
                              Inr (join ''<>'' [rev filename, rev directory,
                                               join '' '' (tl tokens)])
                          | _ \<Rightarrow> Inl TypeError)))))"

text \<open>\<open>os.path.exists\<close> over the file system predicate \<open>ex\<close>; a list is no path.\<close>

definition os_path_exists :: "(string \<Rightarrow> bool) \<Rightarrow> pyval \<Rightarrow> error + bool" where
  "os_path_exists ex v = (case v of Str p \<Rightarrow> Inr (ex p) | StrList _ \<Rightarrow> Inl TypeError)"

text \<open>
  \<open>duplicate(state, entry)\<close>: the answer and the set \<open>state\<close> after the call (the
  source adds to the set in place).
\<close>

definition duplicate ::
  "(string \<Rightarrow> bool) \<Rightarrow> string set \<Rightarrow> pydict \<Rightarrow> error + (bool \<times> string set)" where
  "duplicate ex state entry =
     (case getitem entry ''file'' of
        Inl e \<Rightarrow> Inl e
      | Inr fv \<Rightarrow>
          (case os_path_exists ex fv of
             Inl e \<Rightarrow> Inl e
           | Inr present \<Rightarrow>
               if present
               then (case hash_cdb entry of
                       Inl e \<Rightarrow> Inl e
                     | Inr entry_hash \<Rightarrow>
                         if entry_hash \<notin> state then Inr (False, insert entry_hash state)
                         else Inr (True, state))
               else Inr (True, state)))"

text \<open>The comprehension \<open>[entry for entry in old + new if not duplicate(state, entry)]\<close>.\<close>

fun merge_loop ::
  "(string \<Rightarrow> bool) \<Rightarrow> string set \<Rightarrow> pydict list \<Rightarrow> error + pydict list" where
  "merge_loop ex state [] = Inr []"
| "merge_loop ex state (entry # rest) =
     (case duplicate ex state entry of
        Inl e \<Rightarrow> Inl e
      | Inr (dup, state') \<Rightarrow>
          (case merge_loop ex state' rest of
             Inl e \<Rightarrow> Inl e
           | Inr out \<Rightarrow> Inr (if dup then out else entry # out)))"

definition merge :: "(string \<Rightarrow> bool) \<Rightarrow> pydict list \<Rightarrow> pydict list \<Rightarrow> error + pydict list" where
  "merge ex old new = merge_loop ex {} (old @ new)"

section \<open>main\<close>

text \<open>
  The arguments \<open>main\<close> reads. \<open>append\<close> and \<open>filtering\<close> may be absent from the
  argument object (\<open>'append' in args and args.append\<close>), which is \<open>None\<close>.
\<close>

record args =
  build :: "string list"
  cdb :: string
  append :: "bool option"
  filtering :: "bool option"

text \<open>
  What one run meets outside the module: the outcome of \<open>subprocess.call\<close> on the
  build command (an exit code, or an exception when the command cannot be started),
  the trace files the build left in the temporary directory and their texts, the
  working directory, which paths exist, what \<open>json.load\<close> gives for a database file,
  and whether the database file can be opened for writing.
\<close>

record world =
  cwd :: string
  spawn :: "string list \<Rightarrow> error + int"
  trace_names :: "string list"
  read_text :: "string \<Rightarrow> string option"
  path_exists :: "string \<Rightarrow> bool"
  load_json :: "string \<Rightarrow> error + pydict list"
  writable :: "string \<Rightarrow> bool"

definition run_build :: "world \<Rightarrow> string list \<Rightarrow> error + int" where
  "run_build w command = spawn w command"

definition load_current_cdb :: "world \<Rightarrow> string \<Rightarrow> error + pydict list" where
  "load_current_cdb w filename =
     (if path_exists w filename then load_json w filename else Inr [])"

text \<open>
  \<open>main(args)\<close> returns the exit code; the second component is the list that
  \<open>json.dump\<close> writes to \<open>args.cdb\<close>.
\<close>

definition main ::
  "(string list \<Rightarrow> atoms) \<Rightarrow> world \<Rightarrow> args \<Rightarrow> error + (int \<times> pydict list)" where
  "main cmdparse w a =
     (case run_build w (build a) of
        Inl e \<Rightarrow> Inl e
      | Inr exit_code \<Rightarrow>
          (case (if append a = Some True then load_current_cdb w (cdb a) else Inr []) of
             Inl e \<Rightarrow> Inl e
           | Inr currents \<Rightarrow>
               (case collect (cwd w) cmdparse (read_text w)
                       (\<not> (filtering a = Some True)) (trace_names w) of
                  Inl e \<Rightarrow> Inl e
                | Inr new \<Rightarrow>
                    (case merge (path_exists w) currents new of
                       Inl e \<Rightarrow> Inl e
                     | Inr commands \<Rightarrow>
                         if writable w (cdb a) then Inr (exit_code, commands)
                         else Inl IOError))))"

section \<open>Notions used in the statements about merge\<close>

text \<open>
  \<open>file_exists\<close> is the test \<open>os.path.exists(entry['file'])\<close> of an entry that has a
  file name; \<open>seen_keys\<close> are the keys of the entries of a list whose file exists;
  \<open>first_seen ex prev xs\<close> keeps the entries of \<open>xs\<close> whose file exists and whose key
  is the key of no earlier entry with an existing file, \<open>prev\<close> being the entries before
  \<open>xs\<close>. \<open>well_formed\<close> entries have the three string fields and a command that
  \<open>shlex.split\<close> accepts. \<open>cdb_entry\<close> is the dict display of \<open>format_record\<close>.
\<close>

definition file_exists :: "(string \<Rightarrow> bool) \<Rightarrow> pydict \<Rightarrow> bool" where
  "file_exists ex entry = (case entry ''file'' of Some (Str f) \<Rightarrow> ex f | _ \<Rightarrow> False)"

definition seen_keys :: "(string \<Rightarrow> bool) \<Rightarrow> pydict list \<Rightarrow> (error + string) set" where
  "seen_keys ex prev = set (map hash_cdb (filter (file_exists ex) prev))"


fun first_seen :: "(string \<Rightarrow> bool) \<Rightarrow> pydict list \<Rightarrow> pydict list \<Rightarrow> pydict list" where
  "first_seen ex prev [] = []"
| "first_seen ex prev (entry # rest) =
     (if file_exists ex entry \<and> hash_cdb entry \<notin> seen_keys ex prev
      then entry # first_seen ex (prev @ [entry]) rest
      else first_seen ex (prev @ [entry]) rest)"

definition cdb_entry :: "string \<Rightarrow> string \<Rightarrow> string \<Rightarrow> pydict" where
  "cdb_entry directory command file =
     [''directory'' \<mapsto> Str directory, ''command'' \<mapsto> Str command, ''file'' \<mapsto> Str file]"

text \<open>
  Arguments that \<open>shlex.split\<close> gives back unchanged after \<open>' '.join\<close>: not empty and
  without whitespace, quote or backslash characters.
\<close>

definition plain_char :: "char \<Rightarrow> bool" where
  "plain_char c \<longleftrightarrow> c \<notin> set whitespace \<and> c \<notin> set quotes \<and> c \<notin> set escape"

definition plain_arg :: "string \<Rightarrow> bool" where
  "plain_arg a \<longleftrightarrow> a \<noteq> [] \<and> list_all plain_char a"

section \<open>Notions used in the statements about the recognizer\<close>

text \<open>
  The recognizer as the specification words it, for comparison with \<open>known_compiler\<close>:
  \<open>cc\<close> or \<open>c++\<close>; \<open>gcc\<close> or \<open>g++\<close> after an optional prefix ending in \<open>-\<close> and before an
  optional version; \<open>clang\<close> or \<open>clang++\<close> with the same prefix and the same version;
  \<open>llvm-gcc\<close> or \<open>llvm-g++\<close>; each after any directory prefix and anchored over the
  whole token. The "one-or-two-digit dotted version such as -4.9" is read in the narrowest
  way that admits that example: \<open>-\<close>, a digit, a dot, a digit.
\<close>

definition spec_version :: rexp where
  "spec_version =
     Seq (Lit CHR ''-'') (Seq (OneOf ''0123456789'') (Seq (Lit CHR ''.'') (OneOf ''0123456789'')))"

definition spec_compiler_patterns :: "rexp list" where
  "spec_compiler_patterns =
     [Seq dir_prefix (Alt (lits ''cc'') (lits ''c++'')),
      Seq dir_prefix (Seq dash_prefix (Seq (Alt (lits ''gcc'') (lits ''g++'')) (Opt spec_version))),
      Seq dir_prefix (Seq dash_prefix
        (Seq (Alt (lits ''clang'') (lits ''clang++'')) (Opt spec_version))),
      Seq dir_prefix (Alt (lits ''llvm-gcc'') (lits ''llvm-g++''))]"

definition spec_known_compiler :: "string \<Rightarrow> bool" where
  "spec_known_compiler executable = list_ex (\<lambda>p. matches p executable) spec_compiler_patterns"

text \<open>
  The names \<open>known_compiler\<close> is proved to accept: after the prefix \<open>T\<close> a name \<open>n\<close>
  and a suffix \<open>v\<close>. A version suffix is empty or has four characters: \<open>-\<close>, a digit
  of \<open>ds\<close>, one more character and a decimal digit.
\<close>

definition version_suffix :: "string \<Rightarrow> string \<Rightarrow> bool" where
  "version_suffix ds v \<longleftrightarrow>
     v = [] \<or> (length v = 4 \<and> v ! 0 = CHR ''-'' \<and> v ! 1 \<in> set ds \<and> v ! 3 \<in> set ''0123456789'')"

definition compiler_name :: "string \<Rightarrow> string \<Rightarrow> string \<Rightarrow> bool" where
  "compiler_name T n v \<longleftrightarrow>
     (n \<in> {''cc'', ''c++'', ''llvm-gcc'', ''llvm-g++''} \<and> T = [] \<and> v = []) \<or>
     (n \<in> {''gcc'', ''g++''} \<and> version_suffix ''2345'' v) \<or>
     (n \<in> {''clang'', ''clang++''} \<and> version_suffix ''23'' v)"

section \<open>Properties of the record reader\<close>

lemma split_nonempty: "split sep s \<noteq> []"
  by (induction s) (auto split: list.splits)

lemma split_no_sep: "sep \<notin> set s \<Longrightarrow> split sep s = [s]"
  by (induction s) auto

lemma split_append_sep:
  "sep \<notin> set a \<Longrightarrow> split sep (a @ sep # s) = a # split sep s"
  by (induction a) auto

lemma split_terminated:
  "list_all (\<lambda>t. sep \<notin> set t) ts \<Longrightarrow>
   split sep (concat (map (\<lambda>t. t @ [sep]) ts)) = ts @ [[]]"
  by (induction ts) (auto simp: split_append_sep)

lemma split_five_fields:
  assumes "RS \<notin> set a" "RS \<notin> set b" "RS \<notin> set c" "RS \<notin> set d" "RS \<notin> set e"
  shows "split RS (a @ RS # b @ RS # c @ RS # d @ RS # e) = [a, b, c, d, e]"
  using assms by (simp add: split_append_sep split_no_sep)

lemma RS_not_in_terminated:
  "list_all (\<lambda>t. RS \<notin> set t) ts \<Longrightarrow> RS \<notin> set (concat (map (\<lambda>t. t @ [US]) ts))"
  by (induction ts) (auto simp: RS_def US_def)

text \<open>
  Claim C8. Reading one trace file splits its text on the record separator 0x1E into
  the fields pid, ppid, function, directory and command, in this order, and splits the
  command field on the unit separator 0x1F, dropping the empty token that follows the
  final separator. A file that cannot be opened, or one with fewer than five
  record-separator-delimited fields, makes the read raise instead of giving a record.
\<close>

theorem parse_trace_file:
  "(fs name = None \<longrightarrow> parse fs name = Inl IOError) \<and>
   (fs name = Some content \<and> length (split RS content) < 5 \<longrightarrow>
      parse fs name = Inl IndexError) \<and>
   (fs name = Some content \<and> 5 \<le> length (split RS content) \<longrightarrow>
      parse fs name =
        Inr [''pid'' \<mapsto> Str (split RS content ! 0),
             ''ppid'' \<mapsto> Str (split RS content ! 1),
             ''function'' \<mapsto> Str (split RS content ! 2),
             ''directory'' \<mapsto> Str (split RS content ! 3),
             ''command'' \<mapsto> StrList (butlast (split US (split RS content ! 4)))]) \<and>
   (fs name = Some (pid @ RS # ppid @ RS # func @ RS # dir @ RS #
                    concat (map (\<lambda>t. t @ [US]) toks)) \<and>
    RS \<notin> set pid \<and> RS \<notin> set ppid \<and> RS \<notin> set func \<and> RS \<notin> set dir \<and>
    list_all (\<lambda>t. RS \<notin> set t) toks \<and> list_all (\<lambda>t. US \<notin> set t) toks \<longrightarrow>
      parse fs name =
        Inr [''pid'' \<mapsto> Str pid, ''ppid'' \<mapsto> Str ppid, ''function'' \<mapsto> Str func,
             ''directory'' \<mapsto> Str dir, ''command'' \<mapsto> StrList toks])"
proof (intro conjI impI)
  assume "fs name = None"
  then show "parse fs name = Inl IOError"
    by (simp add: parse_def)
next
  assume "fs name = Some content \<and> length (split RS content) < 5"
  then show "parse fs name = Inl IndexError"
    by (simp add: parse_def)
next
  assume "fs name = Some content \<and> 5 \<le> length (split RS content)"
  then show "parse fs name =
        Inr [''pid'' \<mapsto> Str (split RS content ! 0),
             ''ppid'' \<mapsto> Str (split RS content ! 1),
             ''function'' \<mapsto> Str (split RS content ! 2),
             ''directory'' \<mapsto> Str (split RS content ! 3),
             ''command'' \<mapsto> StrList (butlast (split US (split RS content ! 4)))]"
    by (simp add: parse_def Let_def)
next
  let ?cmd = "concat (map (\<lambda>t. t @ [US]) toks)"
  assume a: "fs name = Some (pid @ RS # ppid @ RS # func @ RS # dir @ RS # ?cmd) \<and>
    RS \<notin> set pid \<and> RS \<notin> set ppid \<and> RS \<notin> set func \<and> RS \<notin> set dir \<and>
    list_all (\<lambda>t. RS \<notin> set t) toks \<and> list_all (\<lambda>t. US \<notin> set t) toks"
  then have "RS \<notin> set ?cmd"
    by (intro RS_not_in_terminated) simp
  with a have fields:
    "split RS (pid @ RS # ppid @ RS # func @ RS # dir @ RS # ?cmd) = [pid, ppid, func, dir, ?cmd]"
    by (intro split_five_fields) simp_all
  from a have "butlast (split US ?cmd) = toks"
    by (simp add: split_terminated)
  with a fields show "parse fs name =
        Inr [''pid'' \<mapsto> Str pid, ''ppid'' \<mapsto> Str ppid, ''function'' \<mapsto> Str func,
             ''directory'' \<mapsto> Str dir, ''command'' \<mapsto> StrList toks]"
    by (simp add: parse_def Let_def)
qed

theorem parse_trace_file_witness:
  "parse (\<lambda>n. if n = ''cmd.1''
               then Some (''1'' @ RS # ''0'' @ RS # ''execve'' @ RS # ''/src'' @ RS #
                          concat (map (\<lambda>t. t @ [US]) [''cc'', ''-c'', ''a.c'']))
               else if n = ''cmd.2'' then Some (''1'' @ RS # ''0'') else None) ''cmd.1''
     = Inr [''pid'' \<mapsto> Str ''1'', ''ppid'' \<mapsto> Str ''0'', ''function'' \<mapsto> Str ''execve'',
            ''directory'' \<mapsto> Str ''/src'', ''command'' \<mapsto> StrList [''cc'', ''-c'', ''a.c'']] \<and>
   parse (\<lambda>n. if n = ''cmd.1''
               then Some (''1'' @ RS # ''0'' @ RS # ''execve'' @ RS # ''/src'' @ RS #
                          concat (map (\<lambda>t. t @ [US]) [''cc'', ''-c'', ''a.c'']))
               else if n = ''cmd.2'' then Some (''1'' @ RS # ''0'') else None) ''cmd.2''
     = Inl IndexError \<and>
   parse (\<lambda>n. if n = ''cmd.1''
               then Some (''1'' @ RS # ''0'' @ RS # ''execve'' @ RS # ''/src'' @ RS #
                          concat (map (\<lambda>t. t @ [US]) [''cc'', ''-c'', ''a.c'']))
               else if n = ''cmd.2'' then Some (''1'' @ RS # ''0'') else None) ''cmd.3''
     = Inl IOError"
proof -
  let ?fs = "\<lambda>n. if n = ''cmd.1''
               then Some (''1'' @ RS # ''0'' @ RS # ''execve'' @ RS # ''/src'' @ RS #
                          concat (map (\<lambda>t. t @ [US]) [''cc'', ''-c'', ''a.c'']))
               else if n = ''cmd.2'' then Some (''1'' @ RS # ''0'') else None"
  have "parse ?fs ''cmd.1''
     = Inr [''pid'' \<mapsto> Str ''1'', ''ppid'' \<mapsto> Str ''0'', ''function'' \<mapsto> Str ''execve'',
            ''directory'' \<mapsto> Str ''/src'', ''command'' \<mapsto> StrList [''cc'', ''-c'', ''a.c'']]"
    using parse_trace_file [of ?fs "''cmd.1''" _ "''1''" "''0''" "''execve''" "''/src''"
        "[''cc'', ''-c'', ''a.c'']"]
    by (simp add: RS_def US_def)
  moreover have "parse ?fs ''cmd.2'' = Inl IndexError"
    using parse_trace_file [of ?fs "''cmd.2''" "''1'' @ RS # ''0''"]
    by (simp add: RS_def)
  moreover have "parse ?fs ''cmd.3'' = Inl IOError"
    using parse_trace_file [of ?fs "''cmd.3''"]
    by simp
  ultimately show ?thesis by blast
qed

section \<open>Properties of merge\<close>

lemma duplicate_absent:
  "entry ''file'' = Some (Str f) \<Longrightarrow> \<not> ex f \<Longrightarrow> duplicate ex state entry = Inr (True, state)"
  by (simp add: duplicate_def getitem_def os_path_exists_def)

lemma duplicate_Inr:
  assumes "duplicate ex state entry = Inr (dup, state')"
  shows "(\<not> file_exists ex entry \<and> dup \<and> state' = state) \<or>
         (file_exists ex entry \<and>
          (\<exists>k. hash_cdb entry = Inr k \<and>
               (if k \<in> state then dup \<and> state' = state
                else \<not> dup \<and> state' = insert k state)))"
  using assms
  by (auto simp: duplicate_def getitem_def os_path_exists_def file_exists_def
           split: option.splits pyval.splits sum.splits if_splits)

lemma duplicate_state_free:
  "duplicate ex s entry = Inl e \<longleftrightarrow> duplicate ex s' entry = Inl e"
  by (auto simp: duplicate_def getitem_def os_path_exists_def
           split: option.splits pyval.splits sum.splits if_splits)

lemma merge_loop_first_seen:
  "merge_loop ex state xs = Inr out \<Longrightarrow>
   Inr ` state = seen_keys ex prev \<Longrightarrow>
   out = first_seen ex prev xs"
proof (induction xs arbitrary: state prev out)
  case Nil
  then show ?case by simp
next
  case (Cons entry rest)
  from Cons.prems(1) obtain dup state' out' where
    d: "duplicate ex state entry = Inr (dup, state')" and
    r: "merge_loop ex state' rest = Inr out'" and
    o: "out = (if dup then out' else entry # out')"
    by (auto split: sum.splits prod.splits)
  have mem: "k \<in> state \<longleftrightarrow> Inr k \<in> seen_keys ex prev" for k
  proof -
    have "Inr k \<in> (Inr ` state :: (error + string) set) \<longleftrightarrow> k \<in> state" by auto
    with Cons.prems(2) show ?thesis by simp
  qed
  have snoc: "seen_keys ex (prev @ [entry]) =
      (if file_exists ex entry then insert (hash_cdb entry) (seen_keys ex prev)
       else seen_keys ex prev)"
    by (simp add: seen_keys_def)
  from duplicate_Inr [OF d]
  have inv: "Inr ` state' = seen_keys ex (prev @ [entry])"
    and k: "dup \<longleftrightarrow> \<not> (file_exists ex entry \<and> hash_cdb entry \<notin> seen_keys ex prev)"
    using mem Cons.prems(2) by (auto simp: snoc split: if_splits)
  from Cons.IH [OF r inv] o k show ?case by simp
qed

lemma duplicate_isl: "isl (duplicate ex s entry) \<longleftrightarrow> isl (duplicate ex {} entry)"
  by (auto simp: duplicate_def getitem_def os_path_exists_def
           split: option.splits pyval.splits sum.splits if_splits)

lemma duplicate_total:
  assumes "\<not> isl (duplicate ex {} entry)"
  shows "duplicate ex state entry =
          (if file_exists ex entry \<and> Inl ` UNIV \<inter> {hash_cdb entry} = {} \<and>
              hash_cdb entry \<notin> Inr ` state
           then Inr (False, insert (projr (hash_cdb entry)) state)
           else Inr (True, state))"
  using assms
  by (auto simp: duplicate_def getitem_def os_path_exists_def file_exists_def
           split: option.splits pyval.splits sum.splits if_splits)

lemma seen_keys_append: "seen_keys ex (a @ b) = seen_keys ex a \<union> seen_keys ex b"
  by (auto simp: seen_keys_def)

lemma seen_keys_snoc:
  "seen_keys ex (prev @ [entry]) =
     (if file_exists ex entry then insert (hash_cdb entry) (seen_keys ex prev)
      else seen_keys ex prev)"
  by (simp add: seen_keys_def)

lemma merge_loop_no_raise:
  "merge_loop ex state xs = Inr out \<Longrightarrow> entry \<in> set xs \<Longrightarrow> \<not> isl (duplicate ex {} entry)"
proof (induction xs arbitrary: state out)
  case Nil
  then show ?case by simp
next
  case (Cons x rest)
  from Cons.prems(1) obtain dup state' out' where
    d: "duplicate ex state x = Inr (dup, state')" and
    r: "merge_loop ex state' rest = Inr out'"
    by (auto split: sum.splits prod.splits)
  from d have "\<not> isl (duplicate ex state x)" by simp
  then have "\<not> isl (duplicate ex {} x)" using duplicate_isl by blast
  with Cons.IH [OF r] Cons.prems(2) show ?case by auto
qed

lemma merge_loop_total:
  "(\<And>entry. entry \<in> set xs \<Longrightarrow> \<not> isl (duplicate ex {} entry)) \<Longrightarrow>
   \<exists>out. merge_loop ex state xs = Inr out"
proof (induction xs arbitrary: state)
  case Nil
  then show ?case by simp
next
  case (Cons x rest)
  have "\<not> isl (duplicate ex {} x)" using Cons.prems by simp
  then have "\<not> isl (duplicate ex state x)" using duplicate_isl by blast
  then obtain dup state' where d: "duplicate ex state x = Inr (dup, state')"
    by (cases "duplicate ex state x") auto
  from Cons.IH [of state'] Cons.prems obtain out' where "merge_loop ex state' rest = Inr out'"
    by auto
  with d show ?case by simp
qed

lemma first_seen_cong:
  "seen_keys ex p = seen_keys ex p' \<Longrightarrow> first_seen ex p xs = first_seen ex p' xs"
  by (induction xs arbitrary: p p') (simp_all add: seen_keys_snoc)

lemma first_seen_append:
  "first_seen ex p (xs @ ys) = first_seen ex p xs @ first_seen ex (p @ xs) ys"
  by (induction xs arbitrary: p) simp_all

lemma first_seen_subset:
  "entry \<in> set (first_seen ex p xs) \<Longrightarrow> entry \<in> set xs \<and> file_exists ex entry"
  by (induction xs arbitrary: p) (auto split: if_splits)

lemma seen_keys_Cons:
  "seen_keys ex (x # ys) =
     (if file_exists ex x then insert (hash_cdb x) (seen_keys ex ys) else seen_keys ex ys)"
  by (simp add: seen_keys_def)

lemma first_seen_keys:
  "seen_keys ex (first_seen ex p xs) \<union> seen_keys ex p = seen_keys ex xs \<union> seen_keys ex p"
proof (induction xs arbitrary: p)
  case Nil
  then show ?case by simp
next
  case (Cons x xs)
  let ?F = "first_seen ex (p @ [x]) xs"
  have IH: "seen_keys ex ?F \<union> seen_keys ex (p @ [x]) = seen_keys ex xs \<union> seen_keys ex (p @ [x])"
    by (rule Cons.IH)
  show ?case
  proof (cases "file_exists ex x")
    case False
    with IH show ?thesis by (simp add: seen_keys_Cons seen_keys_snoc)
  next
    case True
    show ?thesis
    proof (cases "hash_cdb x \<in> seen_keys ex p")
      case True
      with \<open>file_exists ex x\<close> have "seen_keys ex (p @ [x]) = seen_keys ex p"
        by (simp add: seen_keys_snoc insert_absorb)
      with IH True \<open>file_exists ex x\<close> show ?thesis
        by (simp add: seen_keys_Cons insert_absorb)
    next
      case False
      with IH \<open>file_exists ex x\<close> show ?thesis
        by (simp add: seen_keys_Cons seen_keys_snoc)
    qed
  qed
qed

lemma first_seen_idem:
  "seen_keys ex p' = seen_keys ex p \<Longrightarrow>
   first_seen ex p' (first_seen ex p xs) = first_seen ex p xs"
proof (induction xs arbitrary: p p')
  case Nil
  then show ?case by simp
next
  case (Cons x xs)
  show ?case
  proof (cases "file_exists ex x \<and> hash_cdb x \<notin> seen_keys ex p")
    case True
    with Cons.prems have "seen_keys ex (p' @ [x]) = seen_keys ex (p @ [x])"
      by (simp add: seen_keys_snoc)
    from Cons.IH [OF this] True Cons.prems show ?thesis by simp
  next
    case False
    with Cons.prems have "seen_keys ex p' = seen_keys ex (p @ [x])"
      by (auto simp: seen_keys_snoc)
    from Cons.IH [OF this] have "first_seen ex p' (first_seen ex (p @ [x]) xs) =
        first_seen ex (p @ [x]) xs" .
    moreover from False have "first_seen ex p (x # xs) = first_seen ex (p @ [x]) xs"
      by auto
    ultimately show ?thesis by simp
  qed
qed

lemma first_seen_covered:
  "seen_keys ex ys \<subseteq> seen_keys ex p \<Longrightarrow> first_seen ex p ys = []"
proof (induction ys arbitrary: p)
  case Nil
  then show ?case by simp
next
  case (Cons y ys)
  have c: "seen_keys ex (y # ys) =
      (if file_exists ex y then insert (hash_cdb y) (seen_keys ex ys) else seen_keys ex ys)"
    by (simp add: seen_keys_def)
  from Cons.prems have "seen_keys ex ys \<subseteq> seen_keys ex (p @ [y])"
    by (auto simp: c seen_keys_snoc split: if_splits)
  from Cons.IH [OF this] Cons.prems show ?case
    by (auto simp: c split: if_splits)
qed

lemma first_seen_distinct:
  "distinct (map hash_cdb (first_seen ex p xs)) \<and>
   seen_keys ex (first_seen ex p xs) \<inter> seen_keys ex p = {}"
proof (induction xs arbitrary: p)
  case Nil
  then show ?case by (simp add: seen_keys_def)
next
  case (Cons x xs)
  have c: "seen_keys ex (x # ys) =
      (if file_exists ex x then insert (hash_cdb x) (seen_keys ex ys) else seen_keys ex ys)" for ys
    by (simp add: seen_keys_def)
  have sub: "hash_cdb ` set (first_seen ex q ys) = seen_keys ex (first_seen ex q ys)" for q ys
    using first_seen_subset [of _ ex q ys] by (auto simp: seen_keys_def)
  from Cons [of "p @ [x]"] show ?case
    by (auto simp: c sub seen_keys_snoc split: if_splits)
qed




lemma merge_loop_eq:
  assumes ok: "\<And>entry. entry \<in> set xs \<Longrightarrow> \<not> isl (duplicate ex {} entry)"
    and inv: "Inr ` state = seen_keys ex prev"
  shows "merge_loop ex state xs = Inr (first_seen ex prev xs)"
proof -
  from merge_loop_total [of xs ex state] ok obtain out where o: "merge_loop ex state xs = Inr out"
    by blast
  from merge_loop_first_seen [OF o inv] o show ?thesis by simp
qed

lemma merge_eq_first_seen:
  "merge ex old new = Inr out \<Longrightarrow> out = first_seen ex [] (old @ new)"
  unfolding merge_def by (rule merge_loop_first_seen) (simp_all add: seen_keys_def)

lemma merge_total:
  "(\<And>entry. entry \<in> set (old @ new) \<Longrightarrow> \<not> isl (duplicate ex {} entry)) \<Longrightarrow>
   merge ex old new = Inr (first_seen ex [] (old @ new))"
  unfolding merge_def by (rule merge_loop_eq) (simp_all add: seen_keys_def)

lemma merge_no_raise:
  "merge ex old new = Inr out \<Longrightarrow> entry \<in> set (old @ new) \<Longrightarrow> \<not> isl (duplicate ex {} entry)"
  unfolding merge_def by (rule merge_loop_no_raise)

lemma merge_loop_filter:
  "(\<And>entry. entry \<in> set xs \<Longrightarrow> \<exists>f. entry ''file'' = Some (Str f)) \<Longrightarrow>
   merge_loop ex state (filter (file_exists ex) xs) = merge_loop ex state xs"
proof (induction xs arbitrary: state)
  case Nil
  then show ?case by simp
next
  case (Cons x xs)
  from Cons.prems obtain f where f: "x ''file'' = Some (Str f)" by auto
  have IH: "merge_loop ex s (filter (file_exists ex) xs) = merge_loop ex s xs" for s
    using Cons.IH Cons.prems by simp
  show ?case
  proof (cases "ex f")
    case True
    with f have "file_exists ex x" by (simp add: file_exists_def)
    then show ?thesis by (simp add: IH split: sum.splits prod.splits)
  next
    case False
    with f have "\<not> file_exists ex x" by (simp add: file_exists_def)
    moreover from f False have "duplicate ex state x = Inr (True, state)"
      by (rule duplicate_absent)
    ultimately show ?thesis by (simp add: IH split: sum.splits)
  qed
qed

lemma filter_key_one:
  "distinct (map f xs) \<Longrightarrow> x \<in> set xs \<Longrightarrow> length (filter (\<lambda>y. f y = f x) xs) = 1"
proof (induction xs)
  case Nil
  then show ?case by simp
next
  case (Cons y ys)
  show ?case
  proof (cases "f y = f x")
    case True
    from Cons.prems(1) have "f y \<notin> f ` set ys" by simp
    then have "f z \<noteq> f x" if "z \<in> set ys" for z
      using that True by (metis image_eqI)
    then have "filter (\<lambda>z. f z = f x) ys = []"
      by (simp add: filter_empty_conv)
    with True show ?thesis by simp
  next
    case False
    with Cons show ?thesis by auto
  qed
qed

lemma first_seen_image:
  "hash_cdb ` set (first_seen ex p xs) = seen_keys ex (first_seen ex p xs)"
  using first_seen_subset [of _ ex p xs] by (auto simp: seen_keys_def)

lemma merge_single_key:
  assumes m: "merge ex old new = Inr out"
    and e: "entry \<in> set (old @ new)" "file_exists ex entry"
  shows "length (filter (\<lambda>y. hash_cdb y = hash_cdb entry) out) = 1"
proof -
  from m have out: "out = first_seen ex [] (old @ new)" by (rule merge_eq_first_seen)
  from e have "hash_cdb entry \<in> seen_keys ex (old @ new)"
    by (auto simp: seen_keys_def)
  also have "\<dots> = seen_keys ex out"
    using first_seen_keys [of ex "[]" "old @ new"] out by (simp add: seen_keys_def)
  also have "\<dots> = hash_cdb ` set out"
    using first_seen_image [of ex "[]" "old @ new"] out by simp
  finally obtain x where x: "x \<in> set out" "hash_cdb x = hash_cdb entry" by auto
  have "distinct (map hash_cdb out)"
    using first_seen_distinct [of ex "[]" "old @ new"] out by simp
  from filter_key_one [OF this x(1)] x(2) show ?thesis by simp
qed

lemma merge_pair:
  assumes "file_exists ex a" "file_exists ex b" "hash_cdb a = Inr k" "hash_cdb b = Inr k"
  shows "merge ex [a] [b] = Inr [a]"
  using assms
  by (auto simp: merge_def duplicate_def file_exists_def getitem_def os_path_exists_def
           split: option.splits pyval.splits)

lemma merge_idem_Inr:
  assumes m: "merge ex D C = Inr R"
  shows "merge ex R C = Inr R"
proof -
  from m have R: "R = first_seen ex [] (D @ C)" by (rule merge_eq_first_seen)
  have ok: "\<not> isl (duplicate ex {} entry)" if "entry \<in> set (R @ C)" for entry
  proof -
    from that R have "entry \<in> set (D @ C)"
      using first_seen_subset [of entry ex "[]" "D @ C"] by auto
    with m show ?thesis by (rule merge_no_raise)
  qed
  have idem: "first_seen ex [] R = R"
    unfolding R by (rule first_seen_idem) simp
  have "seen_keys ex C \<subseteq> seen_keys ex (D @ C)"
    by (simp add: seen_keys_append)
  also have "\<dots> = seen_keys ex R"
    using first_seen_keys [of ex "[]" "D @ C"] R by (simp add: seen_keys_def)
  finally have "first_seen ex R C = []"
    by (rule first_seen_covered)
  with idem have "first_seen ex [] (R @ C) = R"
    by (simp add: first_seen_append)
  with merge_total [of R C ex] ok show ?thesis by simp
qed

lemma shlex_cc: "shlex_split ''cc -c a.c -o a.o'' = Inr [''cc'', ''-c'', ''a.c'', ''-o'', ''a.o'']"
  by (simp add: shlex_split_def emit_def whitespace_def quotes_def escape_def)

lemma shlex_clang:
  "shlex_split ''clang -c a.c -o a.o'' = Inr [''clang'', ''-c'', ''a.c'', ''-o'', ''a.o'']"
  by (simp add: shlex_split_def emit_def whitespace_def quotes_def escape_def)

text \<open>
  Claim C2. Every entry of the output of \<open>merge\<close> has a file that exists at merge
  time. An entry whose file does not exist is dropped whatever the state is, and the
  state is left as it was: its key is never recorded, and removing such entries from both
  inputs changes nothing.
\<close>

theorem merge_drops_missing_files:
  "(merge ex old new = Inr out \<longrightarrow> list_all (file_exists ex) out) \<and>
   (entry ''file'' = Some (Str f) \<and> \<not> ex f \<longrightarrow>
      duplicate ex state entry = Inr (True, state)) \<and>
   (list_all (\<lambda>e. \<exists>f. e ''file'' = Some (Str f)) (old @ new) \<longrightarrow>
      merge ex (filter (file_exists ex) old) (filter (file_exists ex) new) = merge ex old new)"
proof (intro conjI impI)
  assume "merge ex old new = Inr out"
  then have "out = first_seen ex [] (old @ new)" by (rule merge_eq_first_seen)
  then show "list_all (file_exists ex) out"
    using first_seen_subset [of _ ex "[]" "old @ new"] by (simp add: list_all_iff)
next
  assume "entry ''file'' = Some (Str f) \<and> \<not> ex f"
  then show "duplicate ex state entry = Inr (True, state)"
    by (simp add: duplicate_absent)
next
  assume "list_all (\<lambda>e. \<exists>f. e ''file'' = Some (Str f)) (old @ new)"
  then have "merge_loop ex {} (filter (file_exists ex) (old @ new)) = merge_loop ex {} (old @ new)"
    by (intro merge_loop_filter) (simp add: list_all_iff)
  then show "merge ex (filter (file_exists ex) old) (filter (file_exists ex) new) = merge ex old new"
    by (simp add: merge_def)
qed


text \<open>
  Claim C4. Merging is idempotent: with the file system unchanged, merging the
  collected entries \<open>C\<close> into the result of merging them into \<open>D\<close> gives that result
  again (and raises when the first merge raises).
\<close>

theorem merge_idempotent:
  "(case merge ex D C of Inl e \<Rightarrow> Inl e | Inr R \<Rightarrow> merge ex R C) = merge ex D C"
proof (cases "merge ex D C")
  case (Inl e)
  then show ?thesis by simp
next
  case (Inr R)
  then have "merge ex R C = Inr R" by (rule merge_idem_Inr)
  with Inr show ?thesis by simp
qed

lemma hash_cdb_tail_tokens:
  assumes "e1 ''file'' = Some (Str f)" "e2 ''file'' = Some (Str f)"
    and "e1 ''directory'' = Some (Str d)" "e2 ''directory'' = Some (Str d)"
    and "e1 ''command'' = Some (Str c1)" "e2 ''command'' = Some (Str c2)"
    and "shlex_split c1 = Inr (t1 # rest)" "shlex_split c2 = Inr (t2 # rest)"
  shows "hash_cdb e1 = Inr (rev f @ ''<>'' @ rev d @ ''<>'' @ join '' '' rest) \<and>
         hash_cdb e2 = hash_cdb e1 \<and>
         (ex f \<longrightarrow> merge ex [e1] [e2] = Inr [e1] \<and> merge ex [e2] [e1] = Inr [e2]) \<and>
         (ex f \<and> merge ex old new = Inr out \<and> (e1 \<in> set (old @ new) \<or> e2 \<in> set (old @ new)) \<longrightarrow>
            length (filter (\<lambda>e. hash_cdb e = hash_cdb e1) out) = 1)"
proof -
  have h1: "hash_cdb e1 = Inr (rev f @ ''<>'' @ rev d @ ''<>'' @ join '' '' rest)"
    using assms by (simp add: hash_cdb_def getitem_def)
  have h2: "hash_cdb e2 = Inr (rev f @ ''<>'' @ rev d @ ''<>'' @ join '' '' rest)"
    using assms by (simp add: hash_cdb_def getitem_def)
  have ex12: "file_exists ex e1" "file_exists ex e2" if "ex f"
    using that assms by (simp_all add: file_exists_def)
  have pair: "merge ex [e1] [e2] = Inr [e1] \<and> merge ex [e2] [e1] = Inr [e2]" if "ex f"
    using ex12 [OF that] h1 h2 by (simp add: merge_pair)
  have single: "length (filter (\<lambda>e. hash_cdb e = hash_cdb e1) out) = 1"
    if "ex f \<and> merge ex old new = Inr out \<and> (e1 \<in> set (old @ new) \<or> e2 \<in> set (old @ new))"
  proof -
    from that have m: "merge ex old new = Inr out" and "ex f" by simp_all
    from that consider "e1 \<in> set (old @ new)" | "e2 \<in> set (old @ new)" by blast
    then show ?thesis
    proof cases
      case 1
      from merge_single_key [OF m 1 ex12(1) [OF \<open>ex f\<close>]] show ?thesis .
    next
      case 2
      from merge_single_key [OF m 2 ex12(2) [OF \<open>ex f\<close>]] h1 h2 show ?thesis by simp
    qed
  qed
  from h1 h2 pair single show ?thesis by simp
qed

lemma cdb_entry_fields:
  "cdb_entry d c f ''file'' = Some (Str f)"
  "cdb_entry d c f ''directory'' = Some (Str d)"
  "cdb_entry d c f ''command'' = Some (Str c)"
  by (simp_all add: cdb_entry_def)


lemma hash_cc:
  "hash_cdb (cdb_entry ''/src'' ''cc -c a.c -o a.o'' ''/src/a.c'') =
     Inr ''c.a/crs/<>crs/<>-c a.c -o a.o''"
  by (simp add: hash_cdb_def getitem_def cdb_entry_fields shlex_cc)

lemma hash_clang:
  "hash_cdb (cdb_entry ''/src'' ''clang -c a.c -o a.o'' ''/src/a.c'') =
     Inr ''c.a/crs/<>crs/<>-c a.c -o a.o''"
  by (simp add: hash_cdb_def getitem_def cdb_entry_fields shlex_clang)

lemma shlex_cc_b: "shlex_split ''cc -c b.c'' = Inr [''cc'', ''-c'', ''b.c'']"
  by (simp add: shlex_split_def emit_def whitespace_def quotes_def escape_def)

lemma merge_cc_clang:
  "merge (\<lambda>p. p = ''/src/a.c'') [cdb_entry ''/src'' ''cc -c a.c -o a.o'' ''/src/a.c'']
     [cdb_entry ''/src'' ''clang -c a.c -o a.o'' ''/src/a.c'']
   = Inr [cdb_entry ''/src'' ''cc -c a.c -o a.o'' ''/src/a.c'']"
  by (simp add: merge_def duplicate_def getitem_def os_path_exists_def cdb_entry_fields
        hash_cc hash_clang)

theorem merge_drops_missing_files_witness:
  "list_all (file_exists (\<lambda>p. p = ''/src/a.c''))
     [cdb_entry ''/src'' ''cc -c a.c -o a.o'' ''/src/a.c''] \<and>
   duplicate (\<lambda>p. p = ''/src/a.c'') {} (cdb_entry ''/src'' ''cc -c b.c'' ''/src/b.c'')
     = Inr (True, {}) \<and>
   merge (\<lambda>p. p = ''/src/a.c'') [cdb_entry ''/src'' ''cc -c b.c'' ''/src/b.c'']
     [cdb_entry ''/src'' ''cc -c a.c -o a.o'' ''/src/a.c'']
     = Inr [cdb_entry ''/src'' ''cc -c a.c -o a.o'' ''/src/a.c'']"
proof -
  let ?ex = "\<lambda>p. p = ''/src/a.c''"
  let ?a = "cdb_entry ''/src'' ''cc -c a.c -o a.o'' ''/src/a.c''"
  let ?b = "cdb_entry ''/src'' ''cc -c b.c'' ''/src/b.c''"
  have m: "merge ?ex [?b] [?a] = Inr [?a]"
    by (simp add: merge_def duplicate_def getitem_def os_path_exists_def cdb_entry_fields
          hash_cc)
  from merge_drops_missing_files [of ?ex "[?b]" "[?a]" "[?a]" ?b "''/src/b.c''" "{}"] m
  show ?thesis by (simp add: cdb_entry_fields)
qed


theorem merge_idempotent_witness:
  "(case merge (\<lambda>p. p = ''/src/a.c'') [cdb_entry ''/src'' ''cc -c a.c -o a.o'' ''/src/a.c'']
           [cdb_entry ''/src'' ''clang -c a.c -o a.o'' ''/src/a.c''] of
      Inl e \<Rightarrow> Inl e
    | Inr R \<Rightarrow> merge (\<lambda>p. p = ''/src/a.c'') R
           [cdb_entry ''/src'' ''clang -c a.c -o a.o'' ''/src/a.c''])
   = Inr [cdb_entry ''/src'' ''cc -c a.c -o a.o'' ''/src/a.c'']"
  using merge_idempotent [where ex = "\<lambda>p. p = ''/src/a.c''"
      and D = "[cdb_entry ''/src'' ''cc -c a.c -o a.o'' ''/src/a.c'']"
      and C = "[cdb_entry ''/src'' ''clang -c a.c -o a.o'' ''/src/a.c'']"]
  by (simp only: merge_cc_clang)

section \<open>Properties of the regular expression matcher\<close>

lemma nullable_lang: "nullable r \<longleftrightarrow> [] \<in> lang r"
  by (induction r) (auto simp: conc_def intro: star_nil)

lemma cons_in_conc:
  "c # s \<in> conc A B \<longleftrightarrow>
     (\<exists>a b. s = a @ b \<and> c # a \<in> A \<and> b \<in> B) \<or> ([] \<in> A \<and> c # s \<in> B)"
proof
  assume "c # s \<in> conc A B"
  then obtain a b where ab: "c # s = a @ b" "a \<in> A" "b \<in> B"
    by (auto simp: conc_def)
  show "(\<exists>a b. s = a @ b \<and> c # a \<in> A \<and> b \<in> B) \<or> ([] \<in> A \<and> c # s \<in> B)"
  proof (cases a)
    case Nil
    with ab show ?thesis by simp
  next
    case (Cons x a')
    with ab have "s = a' @ b" "c # a' \<in> A" by simp_all
    with ab show ?thesis by blast
  qed
next
  assume "(\<exists>a b. s = a @ b \<and> c # a \<in> A \<and> b \<in> B) \<or> ([] \<in> A \<and> c # s \<in> B)"
  then show "c # s \<in> conc A B"
  proof
    assume "\<exists>a b. s = a @ b \<and> c # a \<in> A \<and> b \<in> B"
    then obtain a b where "s = a @ b" "c # a \<in> A" "b \<in> B" by blast
    then have "(c # a) @ b \<in> conc A B" unfolding conc_def by blast
    with \<open>s = a @ b\<close> show ?thesis by simp
  next
    assume "[] \<in> A \<and> c # s \<in> B"
    then have "[] @ (c # s) \<in> conc A B" unfolding conc_def by blast
    then show ?thesis by simp
  qed
qed

lemma star_cons_split:
  "w \<in> star A \<Longrightarrow> w = c # s \<Longrightarrow> \<exists>a b. s = a @ b \<and> c # a \<in> A \<and> b \<in> star A"
proof (induction arbitrary: s rule: star.induct)
  case star_nil
  then show ?case by simp
next
  case (star_step a w)
  show ?case
  proof (cases a)
    case Nil
    with star_step show ?thesis by simp
  next
    case (Cons x a')
    with star_step.prems have "s = a' @ w" "x = c" by simp_all
    with Cons star_step.hyps show ?thesis by blast
  qed
qed

lemma cons_in_star:
  "c # s \<in> star A \<longleftrightarrow> (\<exists>a b. s = a @ b \<and> c # a \<in> A \<and> b \<in> star A)"
proof
  assume "c # s \<in> star A"
  then show "\<exists>a b. s = a @ b \<and> c # a \<in> A \<and> b \<in> star A"
    by (rule star_cons_split) simp
next
  assume "\<exists>a b. s = a @ b \<and> c # a \<in> A \<and> b \<in> star A"
  then obtain a b where "s = a @ b" "c # a \<in> A" "b \<in> star A" by blast
  then have "(c # a) @ b \<in> star A" by (intro star_step)
  with \<open>s = a @ b\<close> show "c # s \<in> star A" by simp
qed

lemma deriv_lang: "s \<in> lang (deriv c r) \<longleftrightarrow> c # s \<in> lang r"
proof (induction r arbitrary: s)
  case (Seq r1 r2)
  then show ?case
    by (auto simp: cons_in_conc nullable_lang) (auto simp: conc_def)
next
  case (Star r)
  then show ?case
    by (auto simp: cons_in_star) (auto simp: conc_def)
qed auto

lemma matches_lang: "matches r s \<longleftrightarrow> s \<in> lang r"
  by (induction s arbitrary: r) (simp_all add: nullable_lang deriv_lang)


lemma lang_lits: "lang (lits s) = {s}"
  by (induction s) (auto simp: conc_def)

lemma star_NotCh: "lang (Star (NotCh c)) = {s. c \<notin> set s}"
proof (intro set_eqI iffI)
  fix s
  assume "s \<in> lang (Star (NotCh c))"
  then have "s \<in> star {[d] | d. d \<noteq> c}" by simp
  then show "s \<in> {s. c \<notin> set s}"
    by (induction rule: star.induct) auto
next
  fix s
  assume "s \<in> {s. c \<notin> set s}"
  then have "c \<notin> set s" by simp
  then have "s \<in> star {[d] | d. d \<noteq> c}"
  proof (induction s)
    case Nil
    show ?case by (rule star_nil)
  next
    case (Cons x xs)
    then have "[x] \<in> {[d] | d. d \<noteq> c}" "xs \<in> star {[d] | d. d \<noteq> c}" by auto
    then have "[x] @ xs \<in> star {[d] | d. d \<noteq> c}" by (rule star_step)
    then show ?case by simp
  qed
  then show "s \<in> lang (Star (NotCh c))" by simp
qed

lemma lang_segment: "lang (Seq (Star (NotCh c)) (Lit c)) = {a @ [c] | a. c \<notin> set a}"
  unfolding lang.simps(7) star_NotCh by (auto simp: conc_def)

lemma sep_prefix_sound:
  "s \<in> star {a @ [c] | a. c \<notin> set a} \<Longrightarrow> s = [] \<or> last s = c"
  by (induction rule: star.induct) auto

lemma sep_prefix_complete:
  "s = [] \<or> last s = c \<Longrightarrow> s \<in> star {a @ [c] | a. c \<notin> set a}"
proof (induction "length s" arbitrary: s rule: less_induct)
  case less
  show ?case
  proof (cases "s = []")
    case True
    then show ?thesis by (simp add: star_nil)
  next
    case False
    with less.prems have l: "last s = c" by simp
    with False have "c \<in> set s" using last_in_set by metis
    then obtain a r where s: "s = a @ c # r" and a: "c \<notin> set a"
      by (meson split_list_first)
    from s l have "r = [] \<or> last r = c" by (cases r) auto
    moreover from s have "length r < length s" by simp
    ultimately have "r \<in> star {a @ [c] | a. c \<notin> set a}" by (rule less.hyps [rotated])
    moreover from a have "a @ [c] \<in> {a @ [c] | a. c \<notin> set a}" by blast
    ultimately have "(a @ [c]) @ r \<in> star {a @ [c] | a. c \<notin> set a}" by (rule star_step [rotated])
    with s show ?thesis by simp
  qed
qed

lemma lang_sep_prefix:
  "lang (Star (Seq (Star (NotCh c)) (Lit c))) = {s. s = [] \<or> last s = c}"
  unfolding lang.simps(9) lang_segment
  using sep_prefix_sound sep_prefix_complete by blast

lemma lang_dir_prefix: "lang dir_prefix = {s. s = [] \<or> last s = CHR ''/''}"
  unfolding dir_prefix_def by (rule lang_sep_prefix)

lemma lang_dash_prefix: "lang dash_prefix = {s. s = [] \<or> last s = CHR ''-''}"
  unfolding dash_prefix_def by (rule lang_sep_prefix)

lemma conc_class_left: "conc {[d] | d. Q d} B = {d # b | d b. Q d \<and> b \<in> B}"
proof (intro set_eqI iffI)
  fix w assume "w \<in> conc {[d] | d. Q d} B"
  then show "w \<in> {d # b | d b. Q d \<and> b \<in> B}" by (auto simp: conc_def)
next
  fix w assume "w \<in> {d # b | d b. Q d \<and> b \<in> B}"
  then obtain d b where "w = [d] @ b" "Q d" "b \<in> B" by auto
  then show "w \<in> conc {[d] | d. Q d} B" unfolding conc_def by blast
qed

lemma conc_single_left: "conc {s} B = {s @ b | b. b \<in> B}"
  unfolding conc_def by blast

lemma lang_class_seq:
  "lang (Seq (OneOf ds) (Seq Dot (OneOf ds2))) =
     {[d1, x, d2] | d1 x d2. d1 \<in> set ds \<and> x \<noteq> CHR 0x0A \<and> d2 \<in> set ds2}"
  by (simp add: conc_class_left) blast

lemma lang_version:
  "lang (Opt (Seq (Lit CHR ''-'') (Seq (OneOf ds) (Seq Dot (OneOf ds2))))) =
     insert [] {[CHR ''-'', d1, x, d2] | d1 x d2.
        d1 \<in> set ds \<and> x \<noteq> CHR 0x0A \<and> d2 \<in> set ds2}"
  unfolding lang.simps(10) lang.simps(7) [of "Lit CHR ''-''"] lang_class_seq lang.simps(3)
    conc_single_left
  by auto

lemma conc_names:
  "conc A (conc B (conc N V)) = {a @ b @ n @ v | a b n v. a \<in> A \<and> b \<in> B \<and> n \<in> N \<and> v \<in> V}"
  unfolding conc_def by blast

lemma conc_names2:
  "conc A N = {a @ n | a n. a \<in> A \<and> n \<in> N}"
  unfolding conc_def by blast

lemma lang_gcc_name: "lang (Seq (Lit CHR ''g'') (Alt (lits ''cc'') (lits ''++''))) = {''gcc'', ''g++''}"
  unfolding lang.simps lang_lits conc_single_left by auto

lemma lang_cc_name: "lang (Seq (Lit CHR ''c'') (Alt (Lit CHR ''c'') (lits ''++''))) = {''cc'', ''c++''}"
  unfolding lang.simps lang_lits conc_single_left by auto

lemma lang_clang_name: "lang (Seq (lits ''clang'') (Opt (lits ''++''))) = {''clang'', ''clang++''}"
  unfolding lang.simps lang_lits conc_single_left by auto

lemma lang_llvm_name:
  "lang (Seq (lits ''llvm-g'') (Alt (lits ''cc'') (lits ''++''))) = {''llvm-gcc'', ''llvm-g++''}"
  unfolding lang.simps lang_lits conc_single_left by auto

lemma conc_assoc: "conc (conc A B) C = conc A (conc B C)"
proof (intro set_eqI iffI)
  fix w assume "w \<in> conc (conc A B) C"
  then obtain a b c where "w = (a @ b) @ c" "a \<in> A" "b \<in> B" "c \<in> C"
    unfolding conc_def by blast
  then have "w = a @ (b @ c)" "a \<in> A" "b @ c \<in> conc B C" unfolding conc_def by auto
  then show "w \<in> conc A (conc B C)" unfolding conc_def by blast
next
  fix w assume "w \<in> conc A (conc B C)"
  then obtain a b c where "w = a @ (b @ c)" "a \<in> A" "b \<in> B" "c \<in> C"
    unfolding conc_def by blast
  then have "w = (a @ b) @ c" "a @ b \<in> conc A B" "c \<in> C" unfolding conc_def by auto
  then show "w \<in> conc (conc A B) C" unfolding conc_def by blast
qed

section \<open>Properties of the compiler recognizer\<close>

lemma lang_pattern_cc:
  "lang (compiler_patterns ! 0) =
     {P @ n | P n. (P = [] \<or> last P = CHR ''/'') \<and> n \<in> {''cc'', ''c++''}}"
proof -
  have "lang (compiler_patterns ! 0) =
      conc (lang dir_prefix) (lang (Seq (Lit CHR ''c'') (Alt (Lit CHR ''c'') (lits ''++''))))"
    by (simp add: compiler_patterns_def)
  then show ?thesis
    unfolding lang_dir_prefix lang_cc_name conc_names2 by simp
qed

lemma lang_pattern_gnu:
  "lang (compiler_patterns ! 1) =
     {P @ T @ n @ v | P T n v. (P = [] \<or> last P = CHR ''/'') \<and> (T = [] \<or> last T = CHR ''-'') \<and>
        n \<in> {''gcc'', ''g++''} \<and>
        v \<in> insert [] {[CHR ''-'', d1, x, d2] | d1 x d2.
               d1 \<in> set ''2345'' \<and> x \<noteq> CHR 0x0A \<and> d2 \<in> set ''0123456789''}}"
proof -
  have "lang (compiler_patterns ! 1) =
      conc (lang dir_prefix) (conc (lang dash_prefix)
        (conc (lang (Seq (Lit CHR ''g'') (Alt (lits ''cc'') (lits ''++''))))
          (lang (Opt (Seq (Lit CHR ''-'') (Seq (OneOf ''2345'') (Seq Dot (OneOf ''0123456789''))))))))"
    by (simp add: compiler_patterns_def conc_assoc)
  then show ?thesis
    unfolding lang_dir_prefix lang_dash_prefix lang_gcc_name lang_version conc_names by simp
qed

lemma lang_pattern_clang:
  "lang (compiler_patterns ! 2) =
     {P @ T @ n @ v | P T n v. (P = [] \<or> last P = CHR ''/'') \<and> (T = [] \<or> last T = CHR ''-'') \<and>
        n \<in> {''clang'', ''clang++''} \<and>
        v \<in> insert [] {[CHR ''-'', d1, x, d2] | d1 x d2.
               d1 \<in> set ''23'' \<and> x \<noteq> CHR 0x0A \<and> d2 \<in> set ''0123456789''}}"
proof -
  have "lang (compiler_patterns ! 2) =
      conc (lang dir_prefix) (conc (lang dash_prefix)
        (conc (lang (Seq (lits ''clang'') (Opt (lits ''++''))))
          (lang (Opt (Seq (Lit CHR ''-'') (Seq (OneOf ''23'') (Seq Dot (OneOf ''0123456789''))))))))"
    unfolding compiler_patterns_def by (simp only: nth_Cons_Suc nth_Cons_0 numeral_2_eq_2 lang.simps(7) conc_assoc)
  then show ?thesis
    unfolding lang_dir_prefix lang_dash_prefix lang_clang_name lang_version conc_names by simp
qed

lemma lang_pattern_llvm:
  "lang (compiler_patterns ! 3) =
     {P @ n | P n. (P = [] \<or> last P = CHR ''/'') \<and> n \<in> {''llvm-gcc'', ''llvm-g++''}}"
proof -
  have "lang (compiler_patterns ! 3) =
      conc (lang dir_prefix) (lang (Seq (lits ''llvm-g'') (Alt (lits ''cc'') (lits ''++''))))"
    unfolding compiler_patterns_def by (simp only: nth_Cons_Suc nth_Cons_0 numeral_3_eq_3 lang.simps(7))
  then show ?thesis
    unfolding lang_dir_prefix lang_llvm_name conc_names2 by simp
qed

lemma re_match_lang:
  "re_match r s \<longleftrightarrow> s \<in> lang r \<or> (\<exists>t. s = t @ [CHR 0x0A] \<and> t \<in> lang r)"
  unfolding re_match_def matches_lang
  by (cases s rule: rev_cases) auto

lemma known_compiler_lang:
  "known_compiler (exe # args) =
     Inr (\<exists>i < 4. exe \<in> lang (compiler_patterns ! i) \<or>
            (\<exists>t. exe = t @ [CHR 0x0A] \<and> t \<in> lang (compiler_patterns ! i)))"
proof -
  have len: "length compiler_patterns = 4" by (simp add: compiler_patterns_def)
  have "list_ex (\<lambda>p. re_match p exe) compiler_patterns \<longleftrightarrow>
      (\<exists>i < 4. re_match (compiler_patterns ! i) exe)"
    unfolding list_ex_length len ..
  then show ?thesis by (simp add: known_compiler_def re_match_lang)
qed

lemmas known_compiler_eval =
  known_compiler_def compiler_patterns_def re_match_def dir_prefix_def dash_prefix_def

lemmas spec_known_compiler_eval =
  spec_known_compiler_def spec_compiler_patterns_def spec_version_def dir_prefix_def
  dash_prefix_def

text \<open>
  Claim C6, as worded, fails: the version suffix \<open>-4.9\<close> that the claim gives as its
  example is accepted after \<open>g++\<close> but not after \<open>clang\<close>, and the dotted one-digit
  version \<open>-6.1\<close> is not accepted after \<open>gcc\<close>.
\<close>

theorem known_compiler_versions_counterexample:
  "spec_known_compiler ''clang-4.9'' \<and> known_compiler [''clang-4.9''] = Inr False \<and>
   spec_known_compiler ''gcc-6.1'' \<and> known_compiler [''gcc-6.1''] = Inr False"
  by (simp add: known_compiler_eval spec_known_compiler_eval)

lemma known_compiler_examples:
  "known_compiler [''g++-4.9''] = Inr True"
  "known_compiler [''clang-3.8''] = Inr True"
  "known_compiler [''arm-none-eabi-gcc''] = Inr True"
  "known_compiler [''gccfoo''] = Inr False"
  "known_compiler [''/usr/bin/python''] = Inr False"
  "known_compiler [''my-clang-wrapper''] = Inr False"
  "known_compiler [''GCC''] = Inr False"
  by (simp_all add: known_compiler_eval)

lemma version_suffixI:
  "v \<in> insert [] {[CHR ''-'', d1, x, d2] | d1 x d2. d1 \<in> set ds \<and> X x \<and> d2 \<in> set ''0123456789''}
   \<Longrightarrow> version_suffix ds v"
  unfolding version_suffix_def by auto

lemma version_suffix_dotted:
  assumes "version_suffix ds v" "v \<noteq> [] \<Longrightarrow> v ! 2 = CHR ''.''"
  shows "v \<in> insert [] {[CHR ''-'', d1, x, d2] | d1 x d2.
            d1 \<in> set ds \<and> x \<noteq> CHR 0x0A \<and> d2 \<in> set ''0123456789''}"
proof (cases "v = []")
  case True
  then show ?thesis by simp
next
  case False
  with assms have l: "length v = 4" and v: "v ! 0 = CHR ''-''" "v ! 1 \<in> set ds"
    "v ! 2 = CHR ''.''" "v ! 3 \<in> set ''0123456789''"
    unfolding version_suffix_def by simp_all
  from l have "v = [v ! 0, v ! 1, v ! 2, v ! 3]"
    by (auto simp: list_eq_iff_nth_eq less_Suc_eq numeral_eq_Suc)
  with v have "v = [CHR ''-'', v ! 1, CHR ''.'', v ! 3]" by simp
  moreover have "CHR ''.'' \<noteq> CHR 0x0A" by simp
  ultimately show ?thesis using v(2,4) by blast
qed

lemma two_part_shape:
  assumes "t \<in> {P @ n | P n. A P \<and> n \<in> N}"
  obtains P n where "t = P @ [] @ n @ []" "A P" "n \<in> N"
  using assms by auto

lemma four_part_shape:
  assumes "t \<in> {P @ T @ n @ v | P T n v. A P \<and> B T \<and> n \<in> N \<and> v \<in> V}"
  obtains P T n v where "t = P @ T @ n @ v" "A P" "B T" "n \<in> N" "v \<in> V"
  using assms by blast

lemma pattern_shape:
  assumes "i < 4" "t \<in> lang (compiler_patterns ! i)"
  shows "\<exists>P T n v. t = P @ T @ n @ v \<and>
      (P = [] \<or> last P = CHR ''/'') \<and> (T = [] \<or> last T = CHR ''-'') \<and> compiler_name T n v"
proof -
  from assms(1) consider "i = 0" | "i = 1" | "i = 2" | "i = 3" by linarith
  then show ?thesis
  proof cases
    case 1
    with assms(2) have "t \<in> lang (compiler_patterns ! 0)" by simp
    then obtain P n where "t = P @ [] @ n @ []" "P = [] \<or> last P = CHR ''/''"
      "n \<in> {''cc'', ''c++''}"
      unfolding lang_pattern_cc by (rule two_part_shape)
    moreover from this have "compiler_name [] n []" unfolding compiler_name_def by auto
    ultimately show ?thesis by (intro exI [of _ P] exI [of _ "[]"] exI [of _ n]) simp
  next
    case 2
    with assms(2) have "t \<in> lang (compiler_patterns ! 1)" by simp
    then obtain P T n v where s: "t = P @ T @ n @ v" "P = [] \<or> last P = CHR ''/''"
      "T = [] \<or> last T = CHR ''-''" "n \<in> {''gcc'', ''g++''}"
      "v \<in> insert [] {[CHR ''-'', d1, x, d2] | d1 x d2.
               d1 \<in> set ''2345'' \<and> x \<noteq> CHR 0x0A \<and> d2 \<in> set ''0123456789''}"
      unfolding lang_pattern_gnu by (rule four_part_shape)
    from s(5) have "version_suffix ''2345'' v" by (rule version_suffixI)
    with s(4) have "compiler_name T n v" unfolding compiler_name_def by simp
    with s(1-3) show ?thesis by (intro exI [of _ P] exI [of _ T] exI [of _ n] exI [of _ v]) simp
  next
    case 3
    with assms(2) have "t \<in> lang (compiler_patterns ! 2)" by simp
    then obtain P T n v where s: "t = P @ T @ n @ v" "P = [] \<or> last P = CHR ''/''"
      "T = [] \<or> last T = CHR ''-''" "n \<in> {''clang'', ''clang++''}"
      "v \<in> insert [] {[CHR ''-'', d1, x, d2] | d1 x d2.
               d1 \<in> set ''23'' \<and> x \<noteq> CHR 0x0A \<and> d2 \<in> set ''0123456789''}"
      unfolding lang_pattern_clang by (rule four_part_shape)
    from s(5) have "version_suffix ''23'' v" by (rule version_suffixI)
    with s(4) have "compiler_name T n v" unfolding compiler_name_def by simp
    with s(1-3) show ?thesis by (intro exI [of _ P] exI [of _ T] exI [of _ n] exI [of _ v]) simp
  next
    case 4
    with assms(2) have "t \<in> lang (compiler_patterns ! 3)" by simp
    then obtain P n where "t = P @ [] @ n @ []" "P = [] \<or> last P = CHR ''/''"
      "n \<in> {''llvm-gcc'', ''llvm-g++''}"
      unfolding lang_pattern_llvm by (rule two_part_shape)
    moreover from this have "compiler_name [] n []" unfolding compiler_name_def by auto
    ultimately show ?thesis by (intro exI [of _ P] exI [of _ "[]"] exI [of _ n]) simp
  qed
qed

lemma two_partI: "A P \<Longrightarrow> n \<in> N \<Longrightarrow> P @ n \<in> {P @ n | P n. A P \<and> n \<in> N}"
  by blast

lemma four_partI:
  "A P \<Longrightarrow> B T \<Longrightarrow> n \<in> N \<Longrightarrow> v \<in> V \<Longrightarrow>
   P @ T @ n @ v \<in> {P @ T @ n @ v | P T n v. A P \<and> B T \<and> n \<in> N \<and> v \<in> V}"
  by blast

lemma known_compiler_dotted:
  assumes P: "P = [] \<or> last P = CHR ''/''" and T: "T = [] \<or> last T = CHR ''-''"
    and name: "compiler_name T n v" and dot: "v \<noteq> [] \<Longrightarrow> v ! 2 = CHR ''.''"
  shows "known_compiler ((P @ T @ n @ v) # args) = Inr True"
proof -
  from name have "n \<in> {''cc'', ''c++'', ''llvm-gcc'', ''llvm-g++''} \<and> T = [] \<and> v = [] \<or>
      n \<in> {''gcc'', ''g++''} \<and> version_suffix ''2345'' v \<or>
      n \<in> {''clang'', ''clang++''} \<and> version_suffix ''23'' v"
    unfolding compiler_name_def .
  moreover have "n \<in> {''cc'', ''c++''} \<or> n \<in> {''llvm-gcc'', ''llvm-g++''}"
    if "n \<in> {''cc'', ''c++'', ''llvm-gcc'', ''llvm-g++''}"
    using that by (simp only: insert_iff empty_iff) blast
  ultimately consider
      (cc) "n \<in> {''cc'', ''c++''}" "T = []" "v = []"
    | (llvm) "n \<in> {''llvm-gcc'', ''llvm-g++''}" "T = []" "v = []"
    | (gnu) "n \<in> {''gcc'', ''g++''}" "version_suffix ''2345'' v"
    | (clang) "n \<in> {''clang'', ''clang++''}" "version_suffix ''23'' v"
    by metis
  then have "\<exists>i < 4. P @ T @ n @ v \<in> lang (compiler_patterns ! i)"
  proof cases
    case cc
    from P cc(1) have "P @ n \<in> lang (compiler_patterns ! 0)"
      unfolding lang_pattern_cc by (rule two_partI)
    with cc show ?thesis by (intro exI [of _ 0]) simp
  next
    case llvm
    from P llvm(1) have "P @ n \<in> lang (compiler_patterns ! 3)"
      unfolding lang_pattern_llvm by (rule two_partI)
    with llvm show ?thesis by (intro exI [of _ 3]) simp
  next
    case gnu
    from gnu(2) dot have "v \<in> insert [] {[CHR ''-'', d1, x, d2] | d1 x d2.
            d1 \<in> set ''2345'' \<and> x \<noteq> CHR 0x0A \<and> d2 \<in> set ''0123456789''}"
      by (rule version_suffix_dotted)
    with P T gnu(1) have "P @ T @ n @ v \<in> lang (compiler_patterns ! 1)"
      unfolding lang_pattern_gnu by (rule four_partI)
    then show ?thesis by (intro exI [of _ 1]) simp
  next
    case clang
    from clang(2) dot have "v \<in> insert [] {[CHR ''-'', d1, x, d2] | d1 x d2.
            d1 \<in> set ''23'' \<and> x \<noteq> CHR 0x0A \<and> d2 \<in> set ''0123456789''}"
      by (rule version_suffix_dotted)
    with P T clang(1) have "P @ T @ n @ v \<in> lang (compiler_patterns ! 2)"
      unfolding lang_pattern_clang by (rule four_partI)
    then show ?thesis by (intro exI [of _ 2]) simp
  qed
  then show ?thesis unfolding known_compiler_lang by auto
qed

lemma known_compiler_shape:
  assumes "known_compiler (exe # args) = Inr True"
  shows "\<exists>P T n v. (exe = P @ T @ n @ v \<or> exe = P @ T @ n @ v @ [CHR 0x0A]) \<and>
      (P = [] \<or> last P = CHR ''/'') \<and> (T = [] \<or> last T = CHR ''-'') \<and> compiler_name T n v"
proof -
  from assms obtain i t where i: "i < 4" and t: "t \<in> lang (compiler_patterns ! i)"
    and exe: "exe = t \<or> exe = t @ [CHR 0x0A]"
    unfolding known_compiler_lang by auto
  from pattern_shape [OF i t] obtain P T n v where s: "t = P @ T @ n @ v"
    "P = [] \<or> last P = CHR ''/''" "T = [] \<or> last T = CHR ''-''" "compiler_name T n v"
    by blast
  from exe s(1) have "exe = P @ T @ n @ v \<or> exe = P @ T @ n @ v @ [CHR 0x0A]" by auto
  with s(2-4) show ?thesis by blast
qed

text \<open>
  Claim C6, amended. \<open>known_compiler\<close> matches \<open>command[0]\<close> case-sensitively over the
  whole token. It accepts every token made of a directory prefix (empty or ending in
  \<open>/\<close>), a prefix that is empty or ends in \<open>-\<close>, and a name: \<open>cc\<close>, \<open>c++\<close>,
  \<open>llvm-gcc\<close> or \<open>llvm-g++\<close> (with no second prefix and no version); \<open>gcc\<close> or \<open>g++\<close>,
  optionally followed by \<open>-\<close>, a digit from 2 to 5, a dot and a digit; \<open>clang\<close> or
  \<open>clang++\<close>, optionally followed by \<open>-\<close>, the digit 2 or 3, a dot and a digit. Every
  token it accepts has, up to one final newline, this shape with a four-character version
  suffix of these digits. \<open>g++-4.9\<close>, \<open>clang-3.8\<close> and \<open>arm-none-eabi-gcc\<close> are
  accepted; \<open>gccfoo\<close>, \<open>/usr/bin/python\<close>, \<open>my-clang-wrapper\<close> and \<open>GCC\<close> are not.
\<close>

theorem known_compiler_names:
  "((P = [] \<or> last P = CHR ''/'') \<and> (T = [] \<or> last T = CHR ''-'') \<and> compiler_name T n v \<and>
    (v \<noteq> [] \<longrightarrow> v ! 2 = CHR ''.'') \<longrightarrow>
      known_compiler ((P @ T @ n @ v) # args) = Inr True) \<and>
   (known_compiler (exe # args) = Inr True \<longrightarrow>
      (\<exists>P T n v. (exe = P @ T @ n @ v \<or> exe = P @ T @ n @ v @ [CHR 0x0A]) \<and>
         (P = [] \<or> last P = CHR ''/'') \<and> (T = [] \<or> last T = CHR ''-'') \<and>
         compiler_name T n v)) \<and>
   known_compiler [''g++-4.9''] = Inr True \<and>
   known_compiler [''clang-3.8''] = Inr True \<and>
   known_compiler [''arm-none-eabi-gcc''] = Inr True \<and>
   known_compiler [''gccfoo''] = Inr False \<and>
   known_compiler [''/usr/bin/python''] = Inr False \<and>
   known_compiler [''my-clang-wrapper''] = Inr False \<and>
   known_compiler [''GCC''] = Inr False"
proof (intro conjI impI)
  assume "(P = [] \<or> last P = CHR ''/'') \<and> (T = [] \<or> last T = CHR ''-'') \<and> compiler_name T n v \<and>
    (v \<noteq> [] \<longrightarrow> v ! 2 = CHR ''.'')"
  then show "known_compiler ((P @ T @ n @ v) # args) = Inr True"
    by (intro known_compiler_dotted) simp_all
next
  assume "known_compiler (exe # args) = Inr True"
  then show "\<exists>P T n v. (exe = P @ T @ n @ v \<or> exe = P @ T @ n @ v @ [CHR 0x0A]) \<and>
         (P = [] \<or> last P = CHR ''/'') \<and> (T = [] \<or> last T = CHR ''-'') \<and>
         compiler_name T n v"
    by (rule known_compiler_shape)
qed (simp_all only: known_compiler_examples)

theorem known_compiler_names_witness:
  "known_compiler [''/usr/bin/arm-none-eabi-gcc-4.9'', ''-c'', ''a.c''] = Inr True \<and>
   compiler_name ''arm-none-eabi-'' ''gcc'' ''-4.9''"
proof -
  have n: "compiler_name ''arm-none-eabi-'' ''gcc'' ''-4.9''"
    by (simp add: compiler_name_def version_suffix_def)
  from known_compiler_names [of "''/usr/bin/''" "''arm-none-eabi-''" "''gcc''" "''-4.9''"
      "[''-c'', ''a.c'']"] n
  show ?thesis by simp
qed

lemma re_match_cc1: "re_match (lits ''-cc1'') ''-cc1''"
  by (simp add: re_match_def)

lemma cancel_parameter_cc1: "''-cc1'' \<in> set (tl command) \<Longrightarrow> cancel_parameter command"
  unfolding cancel_parameter_def cancel_patterns_def
  using re_match_cc1 by (auto simp: list_ex_iff)

lemma general_filter_cancelled:
  assumes "r ''command'' = Some (StrList command)" "''-cc1'' \<in> set (tl command)"
  shows "general_filter (r # rest) = general_filter rest"
proof -
  from assms(2) have c: "cancel_parameter command" by (rule cancel_parameter_cc1)
  from assms(2) obtain exe args where "command = exe # args" by (cases command) auto
  then obtain k where "known_compiler command = Inr k" by (simp add: known_compiler_def)
  with assms(1) c show ?thesis
    by (simp add: getitem_def split: sum.splits)
qed

text \<open>
  Claim C5. A record with an argument after the executable that equals \<open>-cc1\<close> is
  rejected by the recognizer, whatever the executable is; in particular a record whose
  executable \<open>clang\<close> matches a compiler pattern. The executable itself is not looked at
  by \<open>cancel_parameter\<close>.
\<close>

theorem cc1_is_excluded:
  "(record ''command'' = Some (StrList command) \<and> ''-cc1'' \<in> set (tl command) \<longrightarrow>
      cancel_parameter command \<and> general_filter (record # rest) = general_filter rest) \<and>
   known_compiler (''clang'' # args) = Inr True \<and>
   (record ''command'' = Some (StrList (''clang'' # args)) \<and> ''-cc1'' \<in> set args \<longrightarrow>
      general_filter [record] = Inr []) \<and>
   \<not> cancel_parameter (''-cc1'' # filter (\<lambda>a. \<not> re_match (lits ''-cc1'') a) args)"
proof (intro conjI impI)
  assume a: "record ''command'' = Some (StrList command) \<and> ''-cc1'' \<in> set (tl command)"
  then show "cancel_parameter command" by (simp add: cancel_parameter_cc1)
  from a have "record ''command'' = Some (StrList command)" "''-cc1'' \<in> set (tl command)"
    by simp_all
  then show "general_filter (record # rest) = general_filter rest"
    by (rule general_filter_cancelled [where r = "record" and command = command])
next
  show "known_compiler (''clang'' # args) = Inr True"
    by (simp add: known_compiler_eval)
next
  assume "record ''command'' = Some (StrList (''clang'' # args)) \<and> ''-cc1'' \<in> set args"
  then have r: "record ''command'' = Some (StrList (''clang'' # args))"
    and m: "''-cc1'' \<in> set (tl (''clang'' # args))" by simp_all
  from general_filter_cancelled [where r = "record" and command = "''clang'' # args"
      and rest = "[]", OF r m]
  show "general_filter [record] = Inr []" by simp
next
  show "\<not> cancel_parameter (''-cc1'' # filter (\<lambda>a. \<not> re_match (lits ''-cc1'') a) args)"
    by (simp add: cancel_parameter_def cancel_patterns_def list_ex_iff)
qed

theorem cc1_is_excluded_witness:
  "general_filter [[''directory'' \<mapsto> Str ''/src'',
                    ''command'' \<mapsto> StrList [''clang'', ''-cc1'', ''-emit-obj'', ''a.c'']]]
     = Inr [] \<and>
   known_compiler [''clang'', ''-cc1'', ''-emit-obj'', ''a.c''] = Inr True"
  using cc1_is_excluded [of "[''directory'' \<mapsto> Str ''/src'',
                    ''command'' \<mapsto> StrList [''clang'', ''-cc1'', ''-emit-obj'', ''a.c'']]"
      "[''clang'', ''-cc1'', ''-emit-obj'', ''a.c'']" "[]" "[''-cc1'', ''-emit-obj'', ''a.c'']"]
  by simp

section \<open>Properties of collect and main\<close>

lemma parse_cc_trace:
  "parse (\<lambda>n. if n = ''cmd.1''
         then Some (''1'' @ RS # ''0'' @ RS # ''execve'' @ RS # ''/src'' @ RS #
                concat (map (\<lambda>t. t @ [US]) [''cc'', ''-c'', ''a.c'', ''-o'', ''a.o'']))
         else None) ''cmd.1''
   = Inr [''pid'' \<mapsto> Str ''1'', ''ppid'' \<mapsto> Str ''0'', ''function'' \<mapsto> Str ''execve'',
          ''directory'' \<mapsto> Str ''/src'',
          ''command'' \<mapsto> StrList [''cc'', ''-c'', ''a.c'', ''-o'', ''a.o'']]"
  by (simp add: parse_def Let_def RS_def US_def)

lemma abspath_home: "abspath ''/home/user'' ''a.c'' = ''/home/user/a.c''"
  by (simp add: abspath_def isabs_def path_join_def normpath_def)

lemma abspath_src: "abspath ''/src'' ''a.c'' = ''/src/a.c''"
  by (simp add: abspath_def isabs_def path_join_def normpath_def)

lemma known_cc: "known_compiler [''cc'', ''-c'', ''a.c'', ''-o'', ''a.o''] = Inr True"
  by (simp add: known_compiler_eval)

lemma not_cancel_cc: "\<not> cancel_parameter [''cc'', ''-c'', ''a.c'', ''-o'', ''a.o'']"
  by (simp add: cancel_parameter_def cancel_patterns_def re_match_def)

lemma general_filter_keeps:
  assumes "r ''command'' = Some (StrList command)" "known_compiler command = Inr True"
    "\<not> cancel_parameter command"
  shows "general_filter [r] = Inr [r]"
  using assms by (simp add: getitem_def)

lemma format_record_single:
  assumes "r ''command'' = Some (StrList command)" "r ''directory'' = Some directory"
    "cmdparse command = \<lparr>action = Compile, files = [filename]\<rparr>"
  shows "format_record wd cmdparse [r] =
    Inr [[''directory'' \<mapsto> directory, ''command'' \<mapsto> Str (join_command command),
          ''file'' \<mapsto> Str (abspath wd filename)]]"
  using assms by (simp add: getitem_def)

lemma join_cc: "join_command [''cc'', ''-c'', ''a.c'', ''-o'', ''a.o''] = ''cc -c a.c -o a.o''"
  by (simp add: join_command_def)

lemma collect_filtering:
  assumes "map_err (parse fs) names = Inr rs" "general_filter rs = Inr gs"
    "format_record wd cp gs = out"
  shows "collect wd cp fs True names = out"
  using assms by (simp add: collect_def)

lemma map_err_cc_trace:
  "map_err (parse (\<lambda>n. if n = ''cmd.1''
         then Some (''1'' @ RS # ''0'' @ RS # ''execve'' @ RS # ''/src'' @ RS #
                concat (map (\<lambda>t. t @ [US]) [''cc'', ''-c'', ''a.c'', ''-o'', ''a.o'']))
         else None)) [''cmd.1'']
   = Inr [[''pid'' \<mapsto> Str ''1'', ''ppid'' \<mapsto> Str ''0'', ''function'' \<mapsto> Str ''execve'',
           ''directory'' \<mapsto> Str ''/src'',
           ''command'' \<mapsto> StrList [''cc'', ''-c'', ''a.c'', ''-o'', ''a.o'']]]"
  by (simp only: map_err.simps parse_cc_trace sum.case)

lemma collect_cc_trace:
  "collect wd (\<lambda>argv. \<lparr>action = Compile, files = [''a.c'']\<rparr>)
     (\<lambda>n. if n = ''cmd.1''
         then Some (''1'' @ RS # ''0'' @ RS # ''execve'' @ RS # ''/src'' @ RS #
                concat (map (\<lambda>t. t @ [US]) [''cc'', ''-c'', ''a.c'', ''-o'', ''a.o'']))
         else None) True [''cmd.1'']
   = Inr [cdb_entry ''/src'' ''cc -c a.c -o a.o'' (abspath wd ''a.c'')]"
proof -
  define r :: pydict where "r = [''pid'' \<mapsto> Str ''1'', ''ppid'' \<mapsto> Str ''0'',
    ''function'' \<mapsto> Str ''execve'', ''directory'' \<mapsto> Str ''/src'',
    ''command'' \<mapsto> StrList [''cc'', ''-c'', ''a.c'', ''-o'', ''a.o'']]"
  have rc: "r ''command'' = Some (StrList [''cc'', ''-c'', ''a.c'', ''-o'', ''a.o''])"
    and rd: "r ''directory'' = Some (Str ''/src'')"
    by (simp_all add: r_def)
  have g: "general_filter [r] = Inr [r]"
    using rc known_cc not_cancel_cc by (rule general_filter_keeps)
  have f: "format_record wd (\<lambda>argv. \<lparr>action = Compile, files = [''a.c'']\<rparr>) [r] =
      Inr [cdb_entry ''/src'' ''cc -c a.c -o a.o'' (abspath wd ''a.c'')]"
    using format_record_single [where r = r and wd = wd
        and cmdparse = "\<lambda>argv. \<lparr>action = Compile, files = [''a.c'']\<rparr>"
        and filename = "''a.c''", OF rc rd]
    by (simp add: join_cc cdb_entry_def)
  from map_err_cc_trace [folded r_def] g f show ?thesis by (rule collect_filtering)
qed

lemma collect_cc_trace_raw:
  "collect wd cp
     (\<lambda>n. if n = ''cmd.1''
         then Some (''1'' @ RS # ''0'' @ RS # ''execve'' @ RS # ''/src'' @ RS #
                concat (map (\<lambda>t. t @ [US]) [''cc'', ''-c'', ''a.c'', ''-o'', ''a.o'']))
         else None) False [''cmd.1'']
   = Inr [[''pid'' \<mapsto> Str ''1'', ''ppid'' \<mapsto> Str ''0'', ''function'' \<mapsto> Str ''execve'',
           ''directory'' \<mapsto> Str ''/src'',
           ''command'' \<mapsto> StrList [''cc'', ''-c'', ''a.c'', ''-o'', ''a.o'']]]"
  unfolding collect_def by (simp only: map_err_cc_trace sum.case if_False)

lemma merge_single_cc:
  "merge (\<lambda>p. p = ''/src/a.c'') [] [cdb_entry ''/src'' ''cc -c a.c -o a.o'' ''/src/a.c'']
   = Inr [cdb_entry ''/src'' ''cc -c a.c -o a.o'' ''/src/a.c'']"
  by (simp add: merge_def duplicate_def getitem_def os_path_exists_def cdb_entry_fields hash_cc)

text \<open>
  Claim C1 does not hold of the code. For a record with action Compile the expander
  emits one entry per operand with the record's directory and the argument vector joined
  by single spaces, but \<open>file\<close> is \<open>os.path.abspath\<close> of the operand, which resolves a
  relative operand against the working directory of the running tool and not against the
  record's directory: run from \<open>/home/user\<close>, the trace of \<open>cc -c a.c -o a.o\<close> in
  \<open>/src\<close> gives the file \<open>/home/user/a.c\<close>.
\<close>

theorem collect_resolves_against_tool_cwd:
  "collect ''/home/user'' (\<lambda>argv. \<lparr>action = Compile, files = [''a.c'']\<rparr>)
     (\<lambda>n. if n = ''cmd.1''
         then Some (''1'' @ RS # ''0'' @ RS # ''execve'' @ RS # ''/src'' @ RS #
                concat (map (\<lambda>t. t @ [US]) [''cc'', ''-c'', ''a.c'', ''-o'', ''a.o'']))
         else None) True [''cmd.1'']
   = Inr [cdb_entry ''/src'' ''cc -c a.c -o a.o'' ''/home/user/a.c'']"

  using collect_cc_trace [of "''/home/user''"] by (simp only: abspath_home)

theorem collect_resolves_against_tool_cwd_witness:
  "collect ''/home/user'' (\<lambda>argv. \<lparr>action = Compile, files = [''a.c'']\<rparr>)
     (\<lambda>n. if n = ''cmd.1''
         then Some (''1'' @ RS # ''0'' @ RS # ''execve'' @ RS # ''/src'' @ RS #
                concat (map (\<lambda>t. t @ [US]) [''cc'', ''-c'', ''a.c'', ''-o'', ''a.o'']))
         else None) True [''cmd.1'']
   \<noteq> Inr [cdb_entry ''/src'' ''cc -c a.c -o a.o'' ''/src/a.c'']"
proof -
  have "cdb_entry ''/src'' ''cc -c a.c -o a.o'' ''/home/user/a.c'' ''file''
      \<noteq> cdb_entry ''/src'' ''cc -c a.c -o a.o'' ''/src/a.c'' ''file''"
    by (simp add: cdb_entry_fields)
  then have "cdb_entry ''/src'' ''cc -c a.c -o a.o'' ''/home/user/a.c''
      \<noteq> cdb_entry ''/src'' ''cc -c a.c -o a.o'' ''/src/a.c''"
    by metis
  with collect_resolves_against_tool_cwd show ?thesis by simp
qed

lemma main_unfold:
  assumes "spawn w (build a) = Inr code"
  shows "main cmdparse w a =
    (case (if append a = Some True then load_current_cdb w (cdb a) else Inr []) of
       Inl e \<Rightarrow> Inl e
     | Inr currents \<Rightarrow>
         (case collect (cwd w) cmdparse (read_text w) (\<not> (filtering a = Some True))
                 (trace_names w) of
            Inl e \<Rightarrow> Inl e
          | Inr new \<Rightarrow>
              (case merge (path_exists w) currents new of
                 Inl e \<Rightarrow> Inl e
               | Inr commands \<Rightarrow>
                   if writable w (cdb a) then Inr (code, commands) else Inl IOError)))"
  using assms by (simp add: main_def run_build_def)

text \<open>
  Claim C9. Whatever the exit code of the build command is, collection, merging and
  writing go on as they do for the exit code 0, over the trace files that were captured,
  and whenever \<open>main\<close> returns, the value it returns is the exit code of the build
  command, whatever list is written to the database. When collecting, merging and
  writing succeed, \<open>main\<close> returns.
\<close>

theorem main_returns_build_exit_code:
  assumes "spawn w (build a) = Inr code"
  shows "(main cmdparse w a = Inr (r, db) \<longrightarrow> r = code) \<and>
         main cmdparse w a =
           (case main cmdparse (w\<lparr>spawn := \<lambda>command. Inr 0\<rparr>) a of
              Inl e \<Rightarrow> Inl e
            | Inr (r0, db0) \<Rightarrow> Inr (code, db0)) \<and>
         (append a \<noteq> Some True \<and>
          collect (cwd w) cmdparse (read_text w) (filtering a \<noteq> Some True) (trace_names w)
            = Inr new \<and>
          merge (path_exists w) [] new = Inr commands \<and> writable w (cdb a) \<longrightarrow>
            main cmdparse w a = Inr (code, commands))"
proof (intro conjI impI)
  assume "main cmdparse w a = Inr (r, db)"
  then show "r = code"
    unfolding main_unfold [OF assms]
    by (auto split: sum.splits if_splits)
next
  have z: "spawn (w\<lparr>spawn := \<lambda>command. Inr 0\<rparr>) (build a) = Inr 0" by simp
  show "main cmdparse w a =
           (case main cmdparse (w\<lparr>spawn := \<lambda>command. Inr 0\<rparr>) a of
              Inl e \<Rightarrow> Inl e
            | Inr (r0, db0) \<Rightarrow> Inr (code, db0))"
    unfolding main_unfold [OF assms] main_unfold [OF z]
    by (simp add: load_current_cdb_def split: sum.splits)
next
  assume "append a \<noteq> Some True \<and>
          collect (cwd w) cmdparse (read_text w) (filtering a \<noteq> Some True) (trace_names w)
            = Inr new \<and>
          merge (path_exists w) [] new = Inr commands \<and> writable w (cdb a)"
  then show "main cmdparse w a = Inr (code, commands)"
    unfolding main_unfold [OF assms] by simp
qed

theorem main_returns_build_exit_code_witness:
  "main (\<lambda>argv. \<lparr>action = Compile, files = [''a.c'']\<rparr>)
     \<lparr>cwd = ''/src'', spawn = \<lambda>command. Inr 2, trace_names = [''cmd.1''],
      read_text = (\<lambda>n. if n = ''cmd.1''
         then Some (''1'' @ RS # ''0'' @ RS # ''execve'' @ RS # ''/src'' @ RS #
                concat (map (\<lambda>t. t @ [US]) [''cc'', ''-c'', ''a.c'', ''-o'', ''a.o'']))
         else None),
      path_exists = \<lambda>p. p = ''/src/a.c'', load_json = \<lambda>n. Inr [], writable = \<lambda>n. True\<rparr>
     \<lparr>build = [''make''], cdb = ''compile_commands.json'', append = None, filtering = None\<rparr>
   = Inr (2, [cdb_entry ''/src'' ''cc -c a.c -o a.o'' ''/src/a.c''])"
proof -
  let ?cp = "\<lambda>argv :: string list. \<lparr>action = Compile, files = [''a.c'']\<rparr>"
  let ?w = "\<lparr>cwd = ''/src'', spawn = \<lambda>command. Inr 2, trace_names = [''cmd.1''],
      read_text = (\<lambda>n. if n = ''cmd.1''
         then Some (''1'' @ RS # ''0'' @ RS # ''execve'' @ RS # ''/src'' @ RS #
                concat (map (\<lambda>t. t @ [US]) [''cc'', ''-c'', ''a.c'', ''-o'', ''a.o'']))
         else None),
      path_exists = \<lambda>p. p = ''/src/a.c'', load_json = \<lambda>n. Inr [], writable = \<lambda>n. True\<rparr>"
  let ?a = "\<lparr>build = [''make''], cdb = ''compile_commands.json'', append = None,
      filtering = None\<rparr>"
  let ?new = "[cdb_entry ''/src'' ''cc -c a.c -o a.o'' ''/src/a.c'']"
  have s: "spawn ?w (build ?a) = Inr 2" by simp
  have h: "append ?a \<noteq> Some True \<and>
      collect (cwd ?w) ?cp (read_text ?w) (filtering ?a \<noteq> Some True) (trace_names ?w) = Inr ?new \<and>
      merge (path_exists ?w) [] ?new = Inr ?new \<and> writable ?w (cdb ?a)"
    by (simp add: collect_cc_trace abspath_src merge_single_cc)
  from main_returns_build_exit_code [where w = ?w and a = ?a and code = 2 and cmdparse = ?cp
      and new = ?new and commands = ?new and r = 2 and db = "[]", OF s] h
  show ?thesis by blast
qed

lemma parse_keys:
  assumes "parse fs name = Inr r"
  shows "dom r = {''pid'', ''ppid'', ''function'', ''directory'', ''command''}"
    and "r ''file'' = None"
proof -
  from assms obtain a b c d e where
    r: "r = [''pid'' \<mapsto> a, ''ppid'' \<mapsto> b, ''function'' \<mapsto> c, ''directory'' \<mapsto> d,
             ''command'' \<mapsto> e]"
    by (auto simp: parse_def Let_def split: option.splits if_splits)
  show "dom r = {''pid'', ''ppid'', ''function'', ''directory'', ''command''}"
    unfolding r by auto
  show "r ''file'' = None"
    unfolding r by simp
qed

lemma duplicate_no_file: "r ''file'' = None \<Longrightarrow> duplicate ex state r = Inl (KeyError ''file'')"
  by (simp add: duplicate_def getitem_def)

lemma map_err_Inr:
  "map_err f xs = Inr ys \<Longrightarrow> list_all2 (\<lambda>x y. f x = Inr y) xs ys"
proof (induction xs arbitrary: ys)
  case Nil
  then show ?case by simp
next
  case (Cons x xs)
  from Cons.prems obtain y ys' where "f x = Inr y" "map_err f xs = Inr ys'" "ys = y # ys'"
    by (auto split: sum.splits)
  with Cons.IH show ?case by simp
qed

lemma collect_unfiltered:
  assumes "collect wd cmdparse fs False names = Inr records"
  shows "length records = length names" and "list_all (\<lambda>r. r ''file'' = None) records"
proof -
  from assms have m: "map_err (parse fs) names = Inr records"
    by (simp add: collect_def split: sum.splits)
  from map_err_Inr [OF m] have l: "list_all2 (\<lambda>x y. parse fs x = Inr y) names records" .
  then show "length records = length names" by (simp add: list_all2_lengthD)
  show "list_all (\<lambda>r. r ''file'' = None) records"
    unfolding list_all_iff
  proof
    fix r assume "r \<in> set records"
    with l obtain n where "parse fs n = Inr r"
      by (auto simp: list_all2_conv_all_nth in_set_conv_nth)
    then show "r ''file'' = None" by (rule parse_keys(2))
  qed
qed

lemma merge_rejects_no_file:
  assumes "merge ex old new = Inr out" "list_all (\<lambda>r. r ''file'' = None) new"
  shows "new = []"
proof (rule ccontr)
  assume "new \<noteq> []"
  then obtain r where r: "r \<in> set new" by (cases new) auto
  with assms(2) have "r ''file'' = None" by (simp add: list_all_iff)
  then have "isl (duplicate ex {} r)" by (simp add: duplicate_no_file)
  moreover from r have "r \<in> set (old @ new)" by simp
  with assms(1) have "\<not> isl (duplicate ex {} r)" by (rule merge_no_raise)
  ultimately show False by simp
qed

text \<open>
  Claim C10. With filtering disabled \<open>collect\<close> returns the parsed records, one per
  trace file, whose keys are pid, ppid, function, directory and command; none has the key
  \<open>file\<close>. \<open>duplicate\<close> raises KeyError on every such record, so \<open>merge\<close> returns only
  when no such record comes in, and \<open>main\<close> with the filter disabled returns only when
  the trace directory holds no trace file.
\<close>

theorem unfiltered_pipeline_needs_no_records:
  "(parse fs name = Inr r \<longrightarrow>
      dom r = {''pid'', ''ppid'', ''function'', ''directory'', ''command''} \<and> r ''file'' = None) \<and>
   (e ''file'' = None \<longrightarrow> duplicate ex state e = Inl (KeyError ''file'')) \<and>
   (collect wd cmdparse fs False names = Inr records \<longrightarrow>
      length records = length names \<and> list_all (\<lambda>r. r ''file'' = None) records) \<and>
   (merge ex old new = Inr out \<and> list_all (\<lambda>r. r ''file'' = None) new \<longrightarrow> new = []) \<and>
   (filtering a = Some True \<and> main cmdparse w a = Inr x \<longrightarrow> trace_names w = [])"
proof (intro conjI impI)
  assume p: "parse fs name = Inr r"
  then show "dom r = {''pid'', ''ppid'', ''function'', ''directory'', ''command''}"
    by (rule parse_keys(1))
  from p show "r ''file'' = None" by (rule parse_keys(2))
next
  assume "e ''file'' = None"
  then show "duplicate ex state e = Inl (KeyError ''file'')" by (rule duplicate_no_file)
next
  assume c: "collect wd cmdparse fs False names = Inr records"
  then show "length records = length names" by (rule collect_unfiltered(1))
  from c show "list_all (\<lambda>r. r ''file'' = None) records" by (rule collect_unfiltered(2))
next
  assume "merge ex old new = Inr out \<and> list_all (\<lambda>r. r ''file'' = None) new"
  then show "new = []" using merge_rejects_no_file by blast
next
  assume h: "filtering a = Some True \<and> main cmdparse w a = Inr x"
  then obtain code where s: "spawn w (build a) = Inr code"
    by (cases "spawn w (build a)") (auto simp: main_def run_build_def)
  from h obtain currents new commands where
    c: "collect (cwd w) cmdparse (read_text w) False (trace_names w) = Inr new" and
    m: "merge (path_exists w) currents new = Inr commands"
    unfolding main_unfold [OF s] by (auto split: sum.splits if_splits)
  from collect_unfiltered [OF c] merge_rejects_no_file [OF m] have "length (trace_names w) = 0"
    by auto
  then show "trace_names w = []" by simp
qed

theorem unfiltered_pipeline_needs_no_records_witness:
  "duplicate (\<lambda>p. True) {}
     [''pid'' \<mapsto> Str ''1'', ''ppid'' \<mapsto> Str ''0'', ''function'' \<mapsto> Str ''execve'',
      ''directory'' \<mapsto> Str ''/src'',
      ''command'' \<mapsto> StrList [''cc'', ''-c'', ''a.c'', ''-o'', ''a.o'']]
     = Inl (KeyError ''file'') \<and>
   main (\<lambda>argv. \<lparr>action = Compile, files = [''a.c'']\<rparr>)
     \<lparr>cwd = ''/src'', spawn = \<lambda>command. Inr 0, trace_names = [''cmd.1''],
      read_text = (\<lambda>n. if n = ''cmd.1''
         then Some (''1'' @ RS # ''0'' @ RS # ''execve'' @ RS # ''/src'' @ RS #
                concat (map (\<lambda>t. t @ [US]) [''cc'', ''-c'', ''a.c'', ''-o'', ''a.o'']))
         else None),
      path_exists = \<lambda>p. True, load_json = \<lambda>n. Inr [], writable = \<lambda>n. True\<rparr>
     \<lparr>build = [''make''], cdb = ''compile_commands.json'', append = None,
      filtering = Some True\<rparr>
   = Inl (KeyError ''file'')"
proof -
  let ?cp = "\<lambda>argv :: string list. \<lparr>action = Compile, files = [''a.c'']\<rparr>"
  let ?w = "\<lparr>cwd = ''/src'', spawn = \<lambda>command. Inr 0, trace_names = [''cmd.1''],
      read_text = (\<lambda>n. if n = ''cmd.1''
         then Some (''1'' @ RS # ''0'' @ RS # ''execve'' @ RS # ''/src'' @ RS #
                concat (map (\<lambda>t. t @ [US]) [''cc'', ''-c'', ''a.c'', ''-o'', ''a.o'']))
         else None),
      path_exists = \<lambda>p. True, load_json = \<lambda>n. Inr [], writable = \<lambda>n. True\<rparr>"
  let ?a = "\<lparr>build = [''make''], cdb = ''compile_commands.json'', append = None,
      filtering = Some True\<rparr>"
  let ?r = "[''pid'' \<mapsto> Str ''1'', ''ppid'' \<mapsto> Str ''0'', ''function'' \<mapsto> Str ''execve'',
      ''directory'' \<mapsto> Str ''/src'',
      ''command'' \<mapsto> StrList [''cc'', ''-c'', ''a.c'', ''-o'', ''a.o'']]"
  have n: "?r ''file'' = None" by simp
  from unfiltered_pipeline_needs_no_records [where e = ?r and ex = "\<lambda>p. True" and state = "{}"] n
  have d: "duplicate (\<lambda>p. True) {} ?r = Inl (KeyError ''file'')" by blast
  have s: "spawn ?w (build ?a) = Inr 0" by simp
  have c: "collect (cwd ?w) ?cp (read_text ?w) (\<not> (filtering ?a = Some True)) (trace_names ?w)
      = Inr [?r]"
    using collect_cc_trace_raw [of "''/src''" ?cp] by simp
  have m: "merge (path_exists ?w) [] [?r] = Inl (KeyError ''file'')"
    using d by (simp add: merge_def)
  have "main ?cp ?w ?a = Inl (KeyError ''file'')"
    unfolding main_unfold [OF s] c using m by simp
  with d show ?thesis by simp
qed

section \<open>Properties of the deduplication key\<close>

lemma shlex_word_plain:
  "list_all plain_char w \<Longrightarrow>
   shlex_loop Word token quoted (w @ s) = shlex_loop Word (token @ w) quoted s"
  by (induction w arbitrary: token) (simp_all add: plain_char_def)

lemma shlex_ws_plain:
  assumes "plain_arg w"
  shows "shlex_loop Ws [] False (w @ s) = shlex_loop Word w False s"
proof -
  from assms obtain c cs where w: "w = c # cs" and c: "plain_char c" and cs: "list_all plain_char cs"
    by (cases w) (auto simp: plain_arg_def)
  from c have "shlex_loop Ws [] False (c # cs @ s) = shlex_loop Word [c] False (cs @ s)"
    by (simp add: plain_char_def)
  also from cs have "\<dots> = shlex_loop Word ([c] @ cs) False s"
    by (rule shlex_word_plain)
  finally show ?thesis by (simp add: w)
qed

lemma shlex_word_space:
  "token \<noteq> [] \<Longrightarrow>
   shlex_loop Word token False (CHR '' '' # s) =
     (case shlex_loop Ws [] False s of Inl e \<Rightarrow> Inl e | Inr tokens \<Rightarrow> Inr (token # tokens))"
  by (simp add: whitespace_def emit_def)

lemma shlex_join_plain:
  "list_all plain_arg args \<Longrightarrow> shlex_loop Ws [] False (join '' '' args) = Inr args"
proof (induction "'' ''" args rule: join.induct)
  case 1
  then show ?case by (simp add: emit_def)
next
  case (2 x)
  then have x: "plain_arg x" by simp
  from shlex_ws_plain [OF x, of "[]"] x show ?case
    by (simp add: emit_def plain_arg_def)
next
  case (3 x y ys)
  then have x: "plain_arg x" and IH: "shlex_loop Ws [] False (join '' '' (y # ys)) = Inr (y # ys)"
    by simp_all
  from x have ne: "x \<noteq> []" by (simp add: plain_arg_def)
  have "shlex_loop Ws [] False (x @ CHR '' '' # join '' '' (y # ys)) =
      shlex_loop Word x False (CHR '' '' # join '' '' (y # ys))"
    using x by (rule shlex_ws_plain)
  also have "\<dots> = Inr (x # y # ys)"
    using shlex_word_space [OF ne, of "join '' '' (y # ys)"] IH by simp
  finally show ?case by simp
qed

lemma shlex_split_join_command:
  "list_all plain_arg args \<Longrightarrow> shlex_split (join_command args) = Inr args"
  unfolding shlex_split_def join_command_def by (rule shlex_join_plain)

lemma plain_arg_eval:
  "plain_arg ''cc''" "plain_arg ''clang''" "plain_arg ''-c''" "plain_arg ''a.c''"
  "plain_arg ''-o''" "plain_arg ''a.o''"
  by (simp_all add: plain_arg_def plain_char_def whitespace_def quotes_def escape_def)

text \<open>
  Claim C7, amended. The key of an entry is made of the reversed file path, the
  reversed directory path and the tokens of \<open>shlex.split\<close> of the command string without
  the first one. Two entries with the same file, the same directory and the same such
  tokens after the first have equal keys, and when their file exists \<open>merge\<close> retains a
  single entry for them. This holds for the entries of two argument vectors that differ
  in \<open>command[0]\<close> only, when every argument is non-empty and has no whitespace, quote
  or backslash character.
\<close>

theorem hash_cdb_ignores_first_token:
  "(e1 ''file'' = Some (Str f) \<and> e2 ''file'' = Some (Str f) \<and>
    e1 ''directory'' = Some (Str d) \<and> e2 ''directory'' = Some (Str d) \<and>
    e1 ''command'' = Some (Str c1) \<and> e2 ''command'' = Some (Str c2) \<and>
    shlex_split c1 = Inr (t1 # rest) \<and> shlex_split c2 = Inr (t2 # rest) \<longrightarrow>
      hash_cdb e1 = Inr (rev f @ ''<>'' @ rev d @ ''<>'' @ join '' '' rest) \<and>
      hash_cdb e2 = hash_cdb e1 \<and>
      (ex f \<longrightarrow> merge ex [e1] [e2] = Inr [e1] \<and> merge ex [e2] [e1] = Inr [e2]) \<and>
      (ex f \<and> merge ex old new = Inr out \<and> (e1 \<in> set (old @ new) \<or> e2 \<in> set (old @ new)) \<longrightarrow>
         length (filter (\<lambda>e. hash_cdb e = hash_cdb e1) out) = 1)) \<and>
   (list_all plain_arg (x1 # x2 # args) \<longrightarrow>
      hash_cdb (cdb_entry d (join_command (x1 # args)) f) =
        Inr (rev f @ ''<>'' @ rev d @ ''<>'' @ join '' '' args) \<and>
      hash_cdb (cdb_entry d (join_command (x2 # args)) f) =
        hash_cdb (cdb_entry d (join_command (x1 # args)) f) \<and>
      (ex f \<longrightarrow>
         merge ex [cdb_entry d (join_command (x1 # args)) f]
           [cdb_entry d (join_command (x2 # args)) f]
         = Inr [cdb_entry d (join_command (x1 # args)) f]))"
proof -
  have tokens: "e1 ''file'' = Some (Str f) \<and> e2 ''file'' = Some (Str f) \<and>
    e1 ''directory'' = Some (Str d) \<and> e2 ''directory'' = Some (Str d) \<and>
    e1 ''command'' = Some (Str c1) \<and> e2 ''command'' = Some (Str c2) \<and>
    shlex_split c1 = Inr (t1 # rest) \<and> shlex_split c2 = Inr (t2 # rest) \<longrightarrow>
      hash_cdb e1 = Inr (rev f @ ''<>'' @ rev d @ ''<>'' @ join '' '' rest) \<and>
      hash_cdb e2 = hash_cdb e1 \<and>
      (ex f \<longrightarrow> merge ex [e1] [e2] = Inr [e1] \<and> merge ex [e2] [e1] = Inr [e2]) \<and>
      (ex f \<and> merge ex old new = Inr out \<and> (e1 \<in> set (old @ new) \<or> e2 \<in> set (old @ new)) \<longrightarrow>
         length (filter (\<lambda>e. hash_cdb e = hash_cdb e1) out) = 1)"
  proof
    assume h: "e1 ''file'' = Some (Str f) \<and> e2 ''file'' = Some (Str f) \<and>
      e1 ''directory'' = Some (Str d) \<and> e2 ''directory'' = Some (Str d) \<and>
      e1 ''command'' = Some (Str c1) \<and> e2 ''command'' = Some (Str c2) \<and>
      shlex_split c1 = Inr (t1 # rest) \<and> shlex_split c2 = Inr (t2 # rest)"
    then have a: "e1 ''file'' = Some (Str f)" "e2 ''file'' = Some (Str f)"
      "e1 ''directory'' = Some (Str d)" "e2 ''directory'' = Some (Str d)"
      "e1 ''command'' = Some (Str c1)" "e2 ''command'' = Some (Str c2)"
      "shlex_split c1 = Inr (t1 # rest)" "shlex_split c2 = Inr (t2 # rest)"
      by simp_all
    show "hash_cdb e1 = Inr (rev f @ ''<>'' @ rev d @ ''<>'' @ join '' '' rest) \<and>
      hash_cdb e2 = hash_cdb e1 \<and>
      (ex f \<longrightarrow> merge ex [e1] [e2] = Inr [e1] \<and> merge ex [e2] [e1] = Inr [e2]) \<and>
      (ex f \<and> merge ex old new = Inr out \<and> (e1 \<in> set (old @ new) \<or> e2 \<in> set (old @ new)) \<longrightarrow>
         length (filter (\<lambda>e. hash_cdb e = hash_cdb e1) out) = 1)"
      by (rule hash_cdb_tail_tokens [where ex = ex and old = old and new = new and out = out,
            OF a])
  qed
  have argv: "list_all plain_arg (x1 # x2 # args) \<longrightarrow>
      hash_cdb (cdb_entry d (join_command (x1 # args)) f) =
        Inr (rev f @ ''<>'' @ rev d @ ''<>'' @ join '' '' args) \<and>
      hash_cdb (cdb_entry d (join_command (x2 # args)) f) =
        hash_cdb (cdb_entry d (join_command (x1 # args)) f) \<and>
      (ex f \<longrightarrow>
         merge ex [cdb_entry d (join_command (x1 # args)) f]
           [cdb_entry d (join_command (x2 # args)) f]
         = Inr [cdb_entry d (join_command (x1 # args)) f])"
  proof
    assume h: "list_all plain_arg (x1 # x2 # args)"
    let ?e1 = "cdb_entry d (join_command (x1 # args)) f"
    let ?e2 = "cdb_entry d (join_command (x2 # args)) f"
    from h have s1: "shlex_split (join_command (x1 # args)) = Inr (x1 # args)"
      by (intro shlex_split_join_command) simp
    from h have s2: "shlex_split (join_command (x2 # args)) = Inr (x2 # args)"
      by (intro shlex_split_join_command) simp
    note t = hash_cdb_tail_tokens [where ?e1.0 = ?e1 and ?e2.0 = ?e2 and ex = ex
        and old = "[]" and new = "[]" and out = "[]",
        OF cdb_entry_fields(1) cdb_entry_fields(1) cdb_entry_fields(2) cdb_entry_fields(2)
          cdb_entry_fields(3) cdb_entry_fields(3) s1 s2]
    from t have k1: "hash_cdb ?e1 = Inr (rev f @ ''<>'' @ rev d @ ''<>'' @ join '' '' args)"
      by (rule conjunct1)
    from t have k2: "hash_cdb ?e2 = hash_cdb ?e1"
      by (rule conjunct1 [OF conjunct2])
    from t have m: "ex f \<longrightarrow> merge ex [?e1] [?e2] = Inr [?e1] \<and> merge ex [?e2] [?e1] = Inr [?e2]"
      by (rule conjunct1 [OF conjunct2 [OF conjunct2]])
    then have "ex f \<longrightarrow> merge ex [?e1] [?e2] = Inr [?e1]" by simp
    with k1 k2 show "hash_cdb ?e1 = Inr (rev f @ ''<>'' @ rev d @ ''<>'' @ join '' '' args) \<and>
      hash_cdb ?e2 = hash_cdb ?e1 \<and> (ex f \<longrightarrow> merge ex [?e1] [?e2] = Inr [?e1])"
      by (intro conjI)
  qed
  show ?thesis by (rule conjI [OF tokens argv])
qed

lemma join_tools:
  "join_command [''/opt/my tools/cc'', ''-c'', ''a.c''] = ''/opt/my tools/cc -c a.c''"
  "join_command [''/opt/my tools/clang'', ''-c'', ''a.c''] = ''/opt/my tools/clang -c a.c''"
  by (simp_all add: join_command_def)

lemma shlex_tools:
  "shlex_split ''/opt/my tools/cc -c a.c'' = Inr [''/opt/my'', ''tools/cc'', ''-c'', ''a.c'']"
  "shlex_split ''/opt/my tools/clang -c a.c'' = Inr [''/opt/my'', ''tools/clang'', ''-c'', ''a.c'']"
  by (simp_all add: shlex_split_def emit_def whitespace_def quotes_def escape_def)

lemma hash_tools:
  "hash_cdb (cdb_entry ''/src'' ''/opt/my tools/cc -c a.c'' ''/src/a.c'') =
     Inr ''c.a/crs/<>crs/<>tools/cc -c a.c''"
  "hash_cdb (cdb_entry ''/src'' ''/opt/my tools/clang -c a.c'' ''/src/a.c'') =
     Inr ''c.a/crs/<>crs/<>tools/clang -c a.c''"
  by (simp_all add: hash_cdb_def getitem_def cdb_entry_fields shlex_tools)

text \<open>
  Claim C7, as worded, fails: the records of \<open>/opt/my tools/cc -c a.c\<close> and
  \<open>/opt/my tools/clang -c a.c\<close> differ in \<open>command[0]\<close> only and both pass the
  recognizer, but \<open>shlex.split\<close> cuts the joined command at the space of the executable,
  the keys keep \<open>tools/cc\<close> and \<open>tools/clang\<close>, and \<open>merge\<close> retains both entries.
\<close>

theorem hash_cdb_first_argument_counterexample:
  "known_compiler [''/opt/my tools/cc'', ''-c'', ''a.c''] = Inr True \<and>
   known_compiler [''/opt/my tools/clang'', ''-c'', ''a.c''] = Inr True \<and>
   format_record ''/src'' (\<lambda>argv. \<lparr>action = Compile, files = [''a.c'']\<rparr>)
     [[''directory'' \<mapsto> Str ''/src'',
       ''command'' \<mapsto> StrList [''/opt/my tools/cc'', ''-c'', ''a.c'']]]
     = Inr [cdb_entry ''/src'' ''/opt/my tools/cc -c a.c'' ''/src/a.c''] \<and>
   format_record ''/src'' (\<lambda>argv. \<lparr>action = Compile, files = [''a.c'']\<rparr>)
     [[''directory'' \<mapsto> Str ''/src'',
       ''command'' \<mapsto> StrList [''/opt/my tools/clang'', ''-c'', ''a.c'']]]
     = Inr [cdb_entry ''/src'' ''/opt/my tools/clang -c a.c'' ''/src/a.c''] \<and>
   hash_cdb (cdb_entry ''/src'' ''/opt/my tools/cc -c a.c'' ''/src/a.c'') \<noteq>
     hash_cdb (cdb_entry ''/src'' ''/opt/my tools/clang -c a.c'' ''/src/a.c'') \<and>
   merge (\<lambda>p. p = ''/src/a.c'') [cdb_entry ''/src'' ''/opt/my tools/cc -c a.c'' ''/src/a.c'']
     [cdb_entry ''/src'' ''/opt/my tools/clang -c a.c'' ''/src/a.c'']
     = Inr [cdb_entry ''/src'' ''/opt/my tools/cc -c a.c'' ''/src/a.c'',
            cdb_entry ''/src'' ''/opt/my tools/clang -c a.c'' ''/src/a.c'']"
proof (intro conjI)
  show "known_compiler [''/opt/my tools/cc'', ''-c'', ''a.c''] = Inr True"
    by (simp add: known_compiler_eval)
  show "known_compiler [''/opt/my tools/clang'', ''-c'', ''a.c''] = Inr True"
    by (simp add: known_compiler_eval)
  show "format_record ''/src'' (\<lambda>argv. \<lparr>action = Compile, files = [''a.c'']\<rparr>)
     [[''directory'' \<mapsto> Str ''/src'',
       ''command'' \<mapsto> StrList [''/opt/my tools/cc'', ''-c'', ''a.c'']]]
     = Inr [cdb_entry ''/src'' ''/opt/my tools/cc -c a.c'' ''/src/a.c'']"
    by (simp add: getitem_def join_tools abspath_src cdb_entry_def)
  show "format_record ''/src'' (\<lambda>argv. \<lparr>action = Compile, files = [''a.c'']\<rparr>)
     [[''directory'' \<mapsto> Str ''/src'',
       ''command'' \<mapsto> StrList [''/opt/my tools/clang'', ''-c'', ''a.c'']]]
     = Inr [cdb_entry ''/src'' ''/opt/my tools/clang -c a.c'' ''/src/a.c'']"
    by (simp add: getitem_def join_tools abspath_src cdb_entry_def)
  show "hash_cdb (cdb_entry ''/src'' ''/opt/my tools/cc -c a.c'' ''/src/a.c'') \<noteq>
     hash_cdb (cdb_entry ''/src'' ''/opt/my tools/clang -c a.c'' ''/src/a.c'')"
    by (simp add: hash_tools)
  show "merge (\<lambda>p. p = ''/src/a.c'') [cdb_entry ''/src'' ''/opt/my tools/cc -c a.c'' ''/src/a.c'']
     [cdb_entry ''/src'' ''/opt/my tools/clang -c a.c'' ''/src/a.c'']
     = Inr [cdb_entry ''/src'' ''/opt/my tools/cc -c a.c'' ''/src/a.c'',
            cdb_entry ''/src'' ''/opt/my tools/clang -c a.c'' ''/src/a.c'']"
    by (simp add: merge_def duplicate_def getitem_def os_path_exists_def cdb_entry_fields
          hash_tools)
qed

lemma join_clang:
  "join_command [''clang'', ''-c'', ''a.c'', ''-o'', ''a.o''] = ''clang -c a.c -o a.o''"
  by (simp add: join_command_def)

theorem hash_cdb_ignores_first_token_witness:
  "hash_cdb (cdb_entry ''/src'' ''cc -c a.c -o a.o'' ''/src/a.c'') =
     Inr ''c.a/crs/<>crs/<>-c a.c -o a.o'' \<and>
   hash_cdb (cdb_entry ''/src'' ''clang -c a.c -o a.o'' ''/src/a.c'') =
     hash_cdb (cdb_entry ''/src'' ''cc -c a.c -o a.o'' ''/src/a.c'') \<and>
   merge (\<lambda>p. p = ''/src/a.c'') [cdb_entry ''/src'' ''cc -c a.c -o a.o'' ''/src/a.c'']
     [cdb_entry ''/src'' ''clang -c a.c -o a.o'' ''/src/a.c'']
   = Inr [cdb_entry ''/src'' ''cc -c a.c -o a.o'' ''/src/a.c'']"
proof -
  have p: "list_all plain_arg (''cc'' # ''clang'' # [''-c'', ''a.c'', ''-o'', ''a.o''])"
    by (simp add: plain_arg_eval)
  from hash_cdb_ignores_first_token [where ?x1.0 = "''cc''" and ?x2.0 = "''clang''"
      and args = "[''-c'', ''a.c'', ''-o'', ''a.o'']" and d = "''/src''" and f = "''/src/a.c''"
      and ex = "\<lambda>p. p = ''/src/a.c''", THEN conjunct2] p
  show ?thesis by (simp add: join_cc join_clang)
qed

end
